theory Spec2Isabelle
  imports Complex_Main
begin

section \<open>JavaScript values used by the storyboard code\<close>

text \<open>
  A JavaScript \<open>number\<close> is modelled as a \<open>real\<close>: every arithmetic expression of the
  source is read as exact arithmetic, so rounding of IEEE doubles is not part of the model.
  A JavaScript string is a \<open>string\<close>, a list of code units restricted to the 8-bit range;
  the non-ASCII letters of the source's Portuguese messages are written with their code
  (\<open>CHR 0xE7\<close> is c-cedilla).
\<close>

text \<open>The code units matched by \<open>\s\<close> and removed by \<open>String.prototype.trim\<close>
  (tab, line feed, vertical tab, form feed, carriage return, space, no-break space).\<close>

definition isSpace :: "char \<Rightarrow> bool" where
  "isSpace c = (c \<in> {CHR 0x09, CHR 0x0A, CHR 0x0B, CHR 0x0C, CHR 0x0D, CHR '' '', CHR 0xA0})"

text \<open>\<open>\d\<close>: the ASCII digits.\<close>

definition isDigit :: "char \<Rightarrow> bool" where
  "isDigit c = (c \<in> set ''0123456789'')"

definition trim :: "string \<Rightarrow> string" where
  "trim s = rev (dropWhile isSpace (rev (dropWhile isSpace s)))"

text \<open>\<open>s.split(/\s+/)\<close>: the pieces between maximal runs of white space, empty pieces at
  the ends included.\<close>

function splitWs :: "string \<Rightarrow> string list" where
  "splitWs [] = [[]]"
| "splitWs (c # cs) =
     (if isSpace c then [] # splitWs (dropWhile isSpace cs)
      else (case splitWs cs of [] \<Rightarrow> [[c]] | w # ws \<Rightarrow> (c # w) # ws))"
  by pat_completeness auto
termination
  by (relation "measure length") (auto simp: le_imp_less_Suc length_dropWhile_le)

text \<open>\<open>s.split(/\s+/).filter(Boolean).length\<close>, the word count used by the segmenter.\<close>

definition wordCount :: "string \<Rightarrow> nat" where
  "wordCount s = length (filter (\<lambda>w. w \<noteq> []) (splitWs s))"

text \<open>\<open>s.replace(/\r\n/g, '\n')\<close>.\<close>

fun replaceCrLf :: "string \<Rightarrow> string" where
  "replaceCrLf (c # d # cs) =
     (if c = CHR 0x0D \<and> d = CHR 0x0A then CHR 0x0A # replaceCrLf cs
      else c # replaceCrLf (d # cs))"
| "replaceCrLf cs = cs"

text \<open>\<open>s.split(/\n\n+/)\<close>: a separator is a maximal run of two or more line feeds.\<close>

function splitBlocks :: "string \<Rightarrow> string list" where
  "splitBlocks [] = [[]]"
| "splitBlocks (c # cs) =
     (if c = CHR 0x0A \<and> cs \<noteq> [] \<and> hd cs = CHR 0x0A
      then [] # splitBlocks (dropWhile (\<lambda>d. d = CHR 0x0A) cs)
      else (case splitBlocks cs of [] \<Rightarrow> [[c]] | b # bs \<Rightarrow> (c # b) # bs))"
  by pat_completeness auto
termination
  by (relation "measure length") (auto simp: le_imp_less_Suc length_dropWhile_le)

text \<open>\<open>s.split(sep)\<close> for the one-character separators of the source, given as a
  predicate: \<open>split('\n')\<close> and \<open>split(/[:,]/)\<close>.\<close>

fun splitOn :: "(char \<Rightarrow> bool) \<Rightarrow> string \<Rightarrow> string list" where
  "splitOn p [] = [[]]"
| "splitOn p (c # cs) =
     (if p c then [] # splitOn p cs
      else (case splitOn p cs of [] \<Rightarrow> [[c]] | w # ws \<Rightarrow> (c # w) # ws))"

text \<open>\<open>parts.join(' ')\<close>.\<close>

fun joinSpace :: "string list \<Rightarrow> string" where
  "joinSpace [] = []"
| "joinSpace [x] = x"
| "joinSpace (x # y # ys) = x @ '' '' @ joinSpace (y # ys)"

text \<open>\<open>s.replace(/<[^>]*>?/gm, '')\<close>: from each \<open><\<close>, everything up to and including the
  next \<open>>\<close> (or up to the end of the string when there is none) is removed.\<close>

function stripTags :: "string \<Rightarrow> string" where
  "stripTags [] = []"
| "stripTags (c # cs) =
     (if c = CHR ''<''
      then stripTags (drop 1 (dropWhile (\<lambda>d. d \<noteq> CHR ''>'') cs))
      else c # stripTags cs)"
  by pat_completeness auto
termination
proof (relation "measure length")
  fix c :: char and cs :: string
  have "length (drop 1 (dropWhile (\<lambda>d. d \<noteq> CHR ''>'') cs)) \<le> length cs"
    using length_dropWhile_le [of "\<lambda>d. d \<noteq> CHR ''>''" cs] by simp
  then show "(drop 1 (dropWhile (\<lambda>d. d \<noteq> CHR ''>'') cs), c # cs) \<in> measure length"
    by simp
qed simp_all

text \<open>\<open>parseInt(s, 10)\<close> on the digit strings the timestamp pattern captures: the value
  of the leading decimal digits. (Without a leading digit JavaScript yields \<open>NaN\<close>; the
  captures of the pattern always start with one.)\<close>

definition digitValue :: "char \<Rightarrow> nat" where
  "digitValue c = of_char c - 48"

definition parseInt :: "string \<Rightarrow> nat" where
  "parseInt s = foldl (\<lambda>acc c. 10 * acc + digitValue c) 0 (takeWhile isDigit s)"

text \<open>\<open>String(n)\<close> for a non-negative integer below \<open>10^21\<close>: its decimal digits.\<close>

function numberToString :: "nat \<Rightarrow> string" where
  "numberToString n =
     (if n < 10 then [''0123456789'' ! n]
      else numberToString (n div 10) @ [''0123456789'' ! (n mod 10)])"
  by pat_completeness auto
termination
  by (relation "measure id") auto

declare numberToString.simps [simp del]

text \<open>\<open>Math.round\<close>: the nearest integer, halves rounded up.\<close>

definition mathRound :: "real \<Rightarrow> int" where
  "mathRound x = \<lfloor>x + 1 / 2\<rfloor>"

section \<open>Subtitle segmenter (\<open>parseAndGroupSrt\<close>)\<close>

record TimedLine =
  startTime :: real
  endTime :: real
  lineText :: string

record SceneGroup =
  groupNarration :: string
  groupStartTime :: real
  groupEndTime :: real

record SceneWithoutVisuals =
  sceneNumber :: nat
  narration :: string
  duration :: string
  durationSeconds :: real
  visualDescription :: string

record Scene = SceneWithoutVisuals +
  imageUrl :: string

text \<open>\<open>parseSrtTimestamp\<close>: \<open>HH:MM:SS,mmm\<close> to seconds.\<close>

definition parseSrtTimestamp :: "string \<Rightarrow> real" where
  "parseSrtTimestamp timestamp =
     (case splitOn (\<lambda>c. c = CHR '':'' \<or> c = CHR '','') timestamp of
        hours # minutes # seconds # milliseconds # _ \<Rightarrow>
          real (parseInt hours) * 3600 + real (parseInt minutes) * 60
            + real (parseInt seconds) + real (parseInt milliseconds) / 1000
      | _ \<Rightarrow> 0)"

text \<open>One timestamp \<open>\d{2}:\d{2}:\d{2},\d{3}\<close> at the head of a string: the capture and
  the rest.\<close>

fun matchTimestamp :: "string \<Rightarrow> (string \<times> string) option" where
  "matchTimestamp (h1 # h2 # c1 # m1 # m2 # c2 # s1 # s2 # c3 # f1 # f2 # f3 # rest) =
     (if isDigit h1 \<and> isDigit h2 \<and> c1 = CHR '':'' \<and> isDigit m1 \<and> isDigit m2
         \<and> c2 = CHR '':'' \<and> isDigit s1 \<and> isDigit s2 \<and> c3 = CHR '',''
         \<and> isDigit f1 \<and> isDigit f2 \<and> isDigit f3
      then Some ([h1, h2, c1, m1, m2, c2, s1, s2, c3, f1, f2, f3], rest)
      else None)"
| "matchTimestamp _ = None"

text \<open>The whole pattern \<open>(ts)\s*-->\s*(ts)\<close> anchored at the head of a string.\<close>

definition matchTimeLineAt :: "string \<Rightarrow> (string \<times> string) option" where
  "matchTimeLineAt s =
     (case matchTimestamp s of
        None \<Rightarrow> None
      | Some (t1, rest) \<Rightarrow>
          (let rest1 = dropWhile isSpace rest in
           if take 3 rest1 = ''-->''
           then (case matchTimestamp (dropWhile isSpace (drop 3 rest1)) of
                   None \<Rightarrow> None
                 | Some (t2, _) \<Rightarrow> Some (t1, t2))
           else None))"

text \<open>\<open>line.match(pattern)\<close>: the leftmost position where the pattern matches.\<close>

fun timeMatch :: "string \<Rightarrow> (string \<times> string) option" where
  "timeMatch [] = matchTimeLineAt []"
| "timeMatch (c # cs) =
     (case matchTimeLineAt (c # cs) of
        Some m \<Rightarrow> Some m
      | None \<Rightarrow> timeMatch cs)"

text \<open>The body of \<open>blocks.forEach\<close>: the timed line a block contributes, if any.\<close>

definition parseBlock :: "string \<Rightarrow> TimedLine option" where
  "parseBlock block =
     (let lines = splitOn (\<lambda>c. c = CHR 0x0A) (trim block) in
      if length lines < 2 then None
      else (case timeMatch (lines ! 1) of
              None \<Rightarrow> None
            | Some (t1, t2) \<Rightarrow>
                (let txt = stripTags (trim (joinSpace (drop 2 lines))) in
                 if txt = [] then None
                 else Some \<lparr> startTime = parseSrtTimestamp t1,
                             endTime = parseSrtTimestamp t2,
                             lineText = txt \<rparr>)))"

definition parseTimedLines :: "string \<Rightarrow> TimedLine list" where
  "parseTimedLines srtContent =
     List.map_filter parseBlock (splitBlocks (replaceCrLf (trim srtContent)))"

definition MAX_PAUSE_SECONDS :: real where
  "MAX_PAUSE_SECONDS = 15 / 10"

text \<open>The grouping loop over \<open>timedLines[1..]\<close>. Its state is the source's
  \<open>currentSceneNarration\<close>, \<open>currentSceneStartTime\<close>, \<open>lastLineEndTime\<close> and the
  \<open>sceneGroups\<close> pushed so far; when the lines are used up, the last group is pushed.\<close>

fun groupLoop ::
  "real \<Rightarrow> TimedLine list \<Rightarrow> string \<Rightarrow> real \<Rightarrow> real \<Rightarrow> SceneGroup list \<Rightarrow> SceneGroup list" where
  "groupLoop maxWordsPerScene [] currentSceneNarration currentSceneStartTime lastLineEndTime
       sceneGroups =
     sceneGroups @ [\<lparr> groupNarration = currentSceneNarration,
                      groupStartTime = currentSceneStartTime,
                      groupEndTime = lastLineEndTime \<rparr>]"
| "groupLoop maxWordsPerScene (line # rest) currentSceneNarration currentSceneStartTime
       lastLineEndTime sceneGroups =
     (let wordCountSoFar = wordCount currentSceneNarration;
          newWordsCount = wordCount (lineText line);
          pauseSinceLastLine = startTime line - lastLineEndTime
      in if pauseSinceLastLine > MAX_PAUSE_SECONDS
            \<or> real (wordCountSoFar + newWordsCount) > maxWordsPerScene
         then groupLoop maxWordsPerScene rest (lineText line) (startTime line) (endTime line)
                (sceneGroups @ [\<lparr> groupNarration = currentSceneNarration,
                                  groupStartTime = currentSceneStartTime,
                                  groupEndTime = lastLineEndTime \<rparr>])
         else groupLoop maxWordsPerScene rest (currentSceneNarration @ '' '' @ lineText line)
                currentSceneStartTime (endTime line) sceneGroups)"

definition groupTimedLines :: "TimedLine list \<Rightarrow> real \<Rightarrow> SceneGroup list" where
  "groupTimedLines timedLines maxWordsPerScene =
     (case timedLines of
        [] \<Rightarrow> []
      | first # rest \<Rightarrow>
          groupLoop maxWordsPerScene rest (lineText first) (startTime first) (endTime first) [])"

text \<open>The local \<open>durationSeconds\<close> of the final \<open>map\<close>: the raw duration of the group
  at \<open>index\<close>, before any floor.\<close>

definition rawDuration :: "SceneGroup list \<Rightarrow> nat \<Rightarrow> SceneGroup \<Rightarrow> real" where
  "rawDuration sceneGroups index grp =
     (if int index < int (length sceneGroups) - 1
      then groupStartTime (sceneGroups ! (index + 1)) - groupStartTime grp
      else groupEndTime grp - groupStartTime grp)"

text \<open>The text of the \<open>duration\<close> field:
  \<open>`${displayDurationSeconds} segundo${displayDurationSeconds > 1 ? 's' : ''}`\<close>.\<close>

definition durationLabel :: "int \<Rightarrow> string" where
  "durationLabel displayDurationSeconds =
     numberToString (nat displayDurationSeconds) @ '' segundo''
       @ (if displayDurationSeconds > 1 then ''s'' else [])"

definition groupToScene :: "SceneGroup list \<Rightarrow> nat \<Rightarrow> SceneGroup \<Rightarrow> SceneWithoutVisuals" where
  "groupToScene sceneGroups index grp =
     (let durationSecs = rawDuration sceneGroups index grp;
          preciseDurationSeconds = max (1 / 10) durationSecs;
          displayDurationSeconds = max 1 (mathRound durationSecs)
      in \<lparr> sceneNumber = index + 1,
           narration = groupNarration grp,
           duration = durationLabel displayDurationSeconds,
           durationSeconds = preciseDurationSeconds,
           visualDescription = [] \<rparr>)"

definition finalizeGroups :: "SceneGroup list \<Rightarrow> SceneWithoutVisuals list" where
  "finalizeGroups sceneGroups =
     map (\<lambda>(index, grp). groupToScene sceneGroups index grp)
         (List.enumerate 0 sceneGroups)"

definition parseAndGroupSrt :: "string \<Rightarrow> real \<Rightarrow> SceneWithoutVisuals list" where
  "parseAndGroupSrt srtContent maxWordsPerScene =
     (let timedLines = parseTimedLines srtContent in
      if timedLines = [] then []
      else finalizeGroups (groupTimedLines timedLines maxWordsPerScene))"

text \<open>The \<open>sceneGroups\<close> array that \<open>parseAndGroupSrt\<close> builds for an input, and the raw
  durations its final \<open>map\<close> computes from it; both are local to the source function and
  are named here so that statements can refer to them.\<close>

definition sceneGroupsOf :: "string \<Rightarrow> real \<Rightarrow> SceneGroup list" where
  "sceneGroupsOf srtContent maxWordsPerScene =
     groupTimedLines (parseTimedLines srtContent) maxWordsPerScene"

definition rawDurations :: "SceneGroup list \<Rightarrow> real list" where
  "rawDurations sceneGroups =
     map (\<lambda>(index, grp). rawDuration sceneGroups index grp) (List.enumerate 0 sceneGroups)"

text \<open>Two auxiliary functions for the proofs: the number of word starts in a string
  (the flag says whether the previous character belonged to a word), and the raw durations
  by recursion over the groups.\<close>

fun wordStarts :: "bool \<Rightarrow> string \<Rightarrow> nat" where
  "wordStarts inWord [] = 0"
| "wordStarts inWord (c # cs) =
     (if isSpace c then wordStarts False cs
      else (if inWord then 0 else 1) + wordStarts True cs)"

fun rawList :: "SceneGroup list \<Rightarrow> real list" where
  "rawList [] = []"
| "rawList [g] = [groupEndTime g - groupStartTime g]"
| "rawList (g # h # gs) = (groupStartTime h - groupStartTime g) # rawList (h # gs)"

text \<open>Subtitle files used as concrete inputs: two cues of four words separated by a pause of
  two seconds; a single cue of fifty milliseconds; and three cues whose second one has five
  words.\<close>

definition twoCuesWithPause :: string where
  "twoCuesWithPause = ''1\<newline>00:00:01,000 --> 00:00:03,000\<newline>one two three four\<newline>\<newline>2\<newline>00:00:05,000 --> 00:00:07,000\<newline><i>five six</i> seven eight''"

definition shortCue :: string where
  "shortCue = ''1\<newline>00:00:00,000 --> 00:00:00,050\<newline>Oi''"

definition longMiddleCue :: string where
  "longMiddleCue = ''1\<newline>00:00:01,000 --> 00:00:02,000\<newline>a b\<newline>\<newline>2\<newline>00:00:02,000 --> 00:00:04,000\<newline>c d e f g\<newline>\<newline>3\<newline>00:00:04,000 --> 00:00:05,000\<newline>h''"

section \<open>Video timeline compositor (\<open>videoService.ts\<close>)\<close>

subsection \<open>Ken Burns transform\<close>

record SourceRect =
  sx :: real
  sy :: real
  sWidth :: real
  sHeight :: real

record DestRect =
  dx :: real
  dy :: real
  dWidth :: real
  dHeight :: real

record KenBurnsTransform =
  source :: SourceRect
  destStart :: DestRect
  destEnd :: DestRect

definition getMaxOffset :: "real \<Rightarrow> real \<Rightarrow> real" where
  "getMaxOffset scaledSize canvasSize = max 0 ((scaledSize - canvasSize) / 2)"

text \<open>The local \<open>initialScale\<close>: the scale at which the image covers the canvas.\<close>

definition initialScale :: "real \<Rightarrow> real \<Rightarrow> real \<Rightarrow> real \<Rightarrow> real" where
  "initialScale imgWidth imgHeight canvasWidth canvasHeight =
     (let imgAspect = imgWidth / imgHeight;
          canvasAspect = canvasWidth / canvasHeight
      in if imgAspect > canvasAspect then canvasHeight / imgHeight else canvasWidth / imgWidth)"

definition startScale :: "bool \<Rightarrow> real \<Rightarrow> real" where
  "startScale zoomIn initScale = (if zoomIn then initScale else initScale * (12 / 10))"

definition endScale :: "bool \<Rightarrow> real \<Rightarrow> real" where
  "endScale zoomIn initScale = (if zoomIn then initScale * (12 / 10) else initScale)"

text \<open>\<open>getKenBurnsTransforms\<close>. The three calls of \<open>Math.random()\<close> are the arguments
  \<open>random1\<close>, \<open>random2\<close>, \<open>random3\<close>, in the order of the calls.\<close>

definition getKenBurnsTransforms ::
  "real \<Rightarrow> real \<Rightarrow> real \<Rightarrow> real \<Rightarrow> real \<Rightarrow> real \<Rightarrow> real \<Rightarrow> KenBurnsTransform" where
  "getKenBurnsTransforms imgWidth imgHeight canvasWidth canvasHeight random1 random2 random3 =
     (let initScale = initialScale imgWidth imgHeight canvasWidth canvasHeight;
          zoomIn = (random1 > 1 / 2);
          panX = random2 - 1 / 2;
          panY = random3 - 1 / 2;
          startW = imgWidth * startScale zoomIn initScale;
          startH = imgHeight * startScale zoomIn initScale;
          maxOffsetXStart = getMaxOffset startW canvasWidth;
          maxOffsetYStart = getMaxOffset startH canvasHeight;
          startX = maxOffsetXStart + panX * maxOffsetXStart;
          startY = maxOffsetYStart + panY * maxOffsetYStart;
          endW = imgWidth * endScale zoomIn initScale;
          endH = imgHeight * endScale zoomIn initScale;
          maxOffsetXEnd = getMaxOffset endW canvasWidth;
          maxOffsetYEnd = getMaxOffset endH canvasHeight;
          endX = maxOffsetXEnd - panX * maxOffsetXEnd;
          endY = maxOffsetYEnd - panY * maxOffsetYEnd
      in \<lparr> source = \<lparr> sx = 0, sy = 0, sWidth = imgWidth, sHeight = imgHeight \<rparr>,
           destStart = \<lparr> dx = - startX, dy = - startY, dWidth = startW, dHeight = startH \<rparr>,
           destEnd = \<lparr> dx = - endX, dy = - endY, dWidth = endW, dHeight = endH \<rparr> \<rparr>)"

text \<open>The destination rectangle the render loop draws at a given \<open>progress\<close>.\<close>

definition interpolateDest :: "KenBurnsTransform \<Rightarrow> real \<Rightarrow> DestRect" where
  "interpolateDest transform progress =
     \<lparr> dx = dx (destStart transform)
              + (dx (destEnd transform) - dx (destStart transform)) * progress,
       dy = dy (destStart transform)
              + (dy (destEnd transform) - dy (destStart transform)) * progress,
       dWidth = dWidth (destStart transform)
              + (dWidth (destEnd transform) - dWidth (destStart transform)) * progress,
       dHeight = dHeight (destStart transform)
              + (dHeight (destEnd transform) - dHeight (destStart transform)) * progress \<rparr>"

text \<open>The destination rectangle covers a canvas of the given size.\<close>

definition coversCanvas :: "DestRect \<Rightarrow> real \<Rightarrow> real \<Rightarrow> bool" where
  "coversCanvas rect canvasWidth canvasHeight =
     (dx rect \<le> 0 \<and> dy rect \<le> 0
      \<and> canvasWidth \<le> dx rect + dWidth rect \<and> canvasHeight \<le> dy rect + dHeight rect)"

subsection \<open>Reconciling scene durations with an audio track\<close>

text \<open>What the audio branch of \<open>generateVideoFromScenes\<close> can meet: no audio URL, an audio
  buffer of some duration, or a failure to fetch or decode it.\<close>

datatype audioTrack = NoAudio | AudioDecoded real | AudioFailed

datatype composeError = AudioProcessingFailed | ZeroDuration

text \<open>\<open>scenes.reduce((sum, s) => sum + s.durationSeconds, 0)\<close>.\<close>

definition totalOf :: "Scene list \<Rightarrow> real" where
  "totalOf scenes = foldl (\<lambda>sum s. sum + durationSeconds s) 0 scenes"

text \<open>The residue step: the difference between the audio duration and the sum of the
  scaled durations goes to the last scene when it exceeds a millisecond.\<close>

definition addResidue :: "Scene list \<Rightarrow> real \<Rightarrow> Scene list" where
  "addResidue scaledScenes totalDuration =
     (let sumOfScaledDurations = totalOf scaledScenes;
          diff = totalDuration - sumOfScaledDurations
      in if length scaledScenes > 0 \<and> \<bar>diff\<bar> > 1 / 1000
         then scaledScenes [length scaledScenes - 1 :=
                (last scaledScenes) \<lparr> durationSeconds :=
                   durationSeconds (last scaledScenes) + diff \<rparr>]
         else scaledScenes)"

definition scaleScenes :: "Scene list \<Rightarrow> real \<Rightarrow> Scene list" where
  "scaleScenes scenes totalDuration =
     (let totalSrtDuration = totalOf scenes
      in if totalSrtDuration > 1 / 10
         then (let scaleFactor = totalDuration / totalSrtDuration;
                   scaledScenes =
                     map (\<lambda>scene. scene \<lparr> durationSeconds :=
                                       durationSeconds scene * scaleFactor \<rparr>) scenes
               in addResidue scaledScenes totalDuration)
         else scenes)"

text \<open>The authoritative total duration and the scenes to render, or the rejection of the
  composition.\<close>

definition reconcileDurations ::
  "Scene list \<Rightarrow> audioTrack \<Rightarrow> composeError + (real \<times> Scene list)" where
  "reconcileDurations scenes audio =
     (case audio of
        AudioFailed \<Rightarrow> Inl AudioProcessingFailed
      | NoAudio \<Rightarrow>
          (if totalOf scenes \<le> 0 then Inl ZeroDuration else Inr (totalOf scenes, scenes))
      | AudioDecoded totalDuration \<Rightarrow>
          (if totalDuration \<le> 0 then Inl ZeroDuration
           else Inr (totalDuration, scaleScenes scenes totalDuration)))"

text \<open>A scene of the given duration, for concrete inputs.\<close>

definition sceneOfDuration :: "nat \<Rightarrow> real \<Rightarrow> Scene" where
  "sceneOfDuration n d =
     \<lparr> sceneNumber = n, narration = ''Oi'', duration = ''1 segundo'', durationSeconds = d,
       visualDescription = ''Uma sala'', imageUrl = ''data:image/png;base64,AAAA'' \<rparr>"

section \<open>Storyboard generation (\<open>generateStoryboard\<close>)\<close>

text \<open>
  The calls to the external text and image models, the JavaScript engine's pattern compiler
  and the process environment are outside the repository. They enter the model as an
  environment: what each call answers is a parameter, indexed by the scene the call is made
  for. The \<open>onProgress\<close> callbacks and the pauses between scenes do not influence the
  result and are left out.
\<close>

record CharacterInfo =
  name :: string
  characteristic :: "string option"
  charContext :: "string option"

record CharacterReference = CharacterInfo +
  base64Image :: string
  mimeType :: string

text \<open>Answer of the text model to a description prompt: the call throws, or it returns a
  response whose \<open>text\<close> may be undefined.\<close>

datatype descriptionReply = DescriptionThrows | DescriptionText "string option"

text \<open>Answer of an image model: the call throws, the response carries no image, or it
  carries image data with a MIME type.\<close>

datatype imageReply = ImageThrows | ImageMissing | ImageData string string

text \<open>Answer of the text model to the script-splitting prompt: the call throws, the
  response text is empty, the text is not JSON, or the JSON carries the list \<open>scenes\<close>
  (empty when the field is absent).\<close>

datatype splitReply = SplitThrows | SplitTextEmpty | SplitJsonInvalid | SplitJson "string list"

record Env =
  mockMode :: bool
  regExpTest :: "string \<Rightarrow> string \<Rightarrow> bool option"
  descriptionReply :: "nat \<Rightarrow> descriptionReply"
  imageReply :: "nat \<Rightarrow> imageReply"
  splitReply :: splitReply

text \<open>\<open>mockMode\<close> is \<open>process.env.STORYBOARD_MOCK_MODE === '1'\<close>.
  \<open>regExpTest env n s\<close> is \<open>new RegExp(`\\b${n}\\b`, 'i').test(s)\<close>: \<open>None\<close> when the
  constructor throws a \<open>SyntaxError\<close> (the name is not escaped), otherwise the result of
  the test.\<close>

datatype genError =
    ApiKeyNotConfigured
  | InvalidRegExp
  | MockFailure
  | MockEmptyContent
  | SplitCallFailed
  | SplitEmptyResponse
  | SplitJsonError
  | SplitNoScenes
  | NoValidSrtScenes
  | NoScenesIdentified
  | DefaultImageFailed
  | ReferenceImageFailed

record GenerateArgs =
  characterReferences :: "CharacterReference list"
  allCharactersInfo :: "CharacterInfo list"
  scriptOrSrtContent :: string
  isSrt :: bool
  imageStyle :: string
  restrictionPrompt :: string
  delayBetweenScenes :: real
  pacing :: real
  apiKey :: string

definition PLACEHOLDER_IMAGE_URL :: string where
  "PLACEHOLDER_IMAGE_URL =
     ''data:image/svg+xml,%3Csvg xmlns='http://www.w3.org/2000/svg' viewBox='0 0 200 11''
     @ ''2.5'%3E%3Crect width='200' height='112.5' fill='%231f2937'/%3E%3Ctext x='100' y='5''
     @ ''0' text-anchor='middle' font-family='sans-serif' font-size='10' fill='%23fca5a5'%''
     @ ''3EFalha ao gerar a imagem%3C/text%3E%3Ctext x='100' y='65' text-anchor='middle' ''
     @ ''font-family='sans-serif' font-size='6' fill='%239ca3af'%3EVerifique o console pa''
     @ ''ra detalhes.%3C/text%3E%3C/svg%3E''"

definition MOCK_IMAGE_URL :: string where
  "MOCK_IMAGE_URL =
     ''data:image/svg+xml,%3Csvg xmlns='http://www.w3.org/2000/svg' viewBox='0 0 200 11''
     @ ''2.5'%3E%3Crect width='200' height='112.5' fill='%230a3b8c'/%3E%3Ctext x='100' y='5''
     @ ''8' text-anchor='middle' font-family='sans-serif' font-size='10' fill='%23dbeafe'%''
     @ ''3EMock Scene%3C/text%3E%3C/svg%3E''"

text \<open>Truthiness of an optional string: defined and not empty.\<close>

definition truthy :: "string option \<Rightarrow> bool" where
  "truthy s = (case s of None \<Rightarrow> False | Some t \<Rightarrow> t \<noteq> [])"

text \<open>\<open>xs.filter(p)\<close> for a predicate that may throw: the first throw aborts the filter.\<close>

fun filterThrowing :: "('a \<Rightarrow> bool option) \<Rightarrow> 'a list \<Rightarrow> 'a list option" where
  "filterThrowing p [] = Some []"
| "filterThrowing p (x # xs) =
     (case p x of
        None \<Rightarrow> None
      | Some b \<Rightarrow>
          (case filterThrowing p xs of
             None \<Rightarrow> None
           | Some ys \<Rightarrow> Some (if b then x # ys else ys)))"

text \<open>\<open>s.includes(sub)\<close>.\<close>

fun stringIncludes :: "string \<Rightarrow> string \<Rightarrow> bool" where
  "stringIncludes [] sub = (sub = [])"
| "stringIncludes (c # cs) sub = (take (length sub) (c # cs) = sub \<or> stringIncludes cs sub)"

text \<open>\<open>script.split(/(?<=[.!?])\s+/)\<close>: a separator is a run of white space that follows
  a full stop, an exclamation mark or a question mark. The flag says whether the previous
  character was one of these.\<close>

function splitSentences :: "bool \<Rightarrow> string \<Rightarrow> string list" where
  "splitSentences afterStop [] = [[]]"
| "splitSentences afterStop (c # cs) =
     (if afterStop \<and> isSpace c then [] # splitSentences False (dropWhile isSpace cs)
      else (case splitSentences (c \<in> set ''.!?'') cs of
              [] \<Rightarrow> [[c]]
            | w # ws \<Rightarrow> (c # w) # ws))"
  by pat_completeness auto
termination
  by (relation "measure (\<lambda>(afterStop, s). length s)")
     (auto simp: le_imp_less_Suc length_dropWhile_le)

definition splitScriptIntoMockScenes :: "string \<Rightarrow> SceneWithoutVisuals list" where
  "splitScriptIntoMockScenes script =
     (let parts = filter (\<lambda>part. part \<noteq> []) (map trim (splitSentences False script));
          narrations = (if parts \<noteq> [] then take 4 parts
                        else filter (\<lambda>part. part \<noteq> []) [trim script])
      in map (\<lambda>(index, narr).
                \<lparr> sceneNumber = index + 1,
                  narration = narr,
                  duration = ''2 segundos'',
                  durationSeconds = 2,
                  visualDescription =
                    ''Mock visual da cena '' @ numberToString (index + 1) @ '': ''
                      @ take 80 narr \<rparr>)
             (List.enumerate 0 narrations))"

text \<open>\<open>{ ...scene, visualDescription, imageUrl }\<close>.\<close>

definition completeScene :: "SceneWithoutVisuals \<Rightarrow> string \<Rightarrow> string \<Rightarrow> Scene" where
  "completeScene scene description url =
     \<lparr> sceneNumber = sceneNumber scene,
       narration = narration scene,
       duration = duration scene,
       durationSeconds = durationSeconds scene,
       visualDescription = description,
       imageUrl = url \<rparr>"

definition buildMockScenes :: "string \<Rightarrow> bool \<Rightarrow> real \<Rightarrow> genError + Scene list" where
  "buildMockScenes content srt pace =
     (let sourceScenes = (if srt then parseAndGroupSrt content pace
                          else splitScriptIntoMockScenes content)
      in if sourceScenes = [] then Inl MockEmptyContent
         else Inr (map (\<lambda>(index, scene).
                          completeScene scene
                            (if visualDescription scene \<noteq> [] then visualDescription scene
                             else ''Mock visual da cena '' @ numberToString (index + 1))
                            MOCK_IMAGE_URL)
                       (List.enumerate 0 sourceScenes)))"

text \<open>\<open>getAiClient\<close> throws when the key is empty; the client itself is not modelled.\<close>

definition getAiClient :: "string \<Rightarrow> genError + unit" where
  "getAiClient key = (if key = [] then Inl ApiKeyNotConfigured else Inr ())"

definition splitScriptIntoScenesWithAI ::
  "Env \<Rightarrow> string \<Rightarrow> real \<Rightarrow> string \<Rightarrow> genError + SceneWithoutVisuals list" where
  "splitScriptIntoScenesWithAI env script targetWordCount key =
     (case getAiClient key of
        Inl e \<Rightarrow> Inl e
      | Inr _ \<Rightarrow>
          (case splitReply env of
             SplitThrows \<Rightarrow> Inl SplitCallFailed
           | SplitTextEmpty \<Rightarrow> Inl SplitEmptyResponse
           | SplitJsonInvalid \<Rightarrow> Inl SplitJsonError
           | SplitJson narrations \<Rightarrow>
               if narrations = [] then Inl SplitNoScenes
               else Inr (map (\<lambda>(index, narr).
                          (let wordCnt = wordCount (trim narr);
                               durationSecs = max 1 (mathRound (real wordCnt / (150 / 60)))
                           in \<lparr> sceneNumber = index + 1,
                                narration = narr,
                                duration = durationLabel durationSecs,
                                durationSeconds = real_of_int durationSecs,
                                visualDescription = [] \<rparr>))
                        (List.enumerate 0 narrations))))"

text \<open>The fallback \<open>`Uma cena cinematografica mostrando: ${narration}`\<close> (with an acute
  accent on the second \<open>a\<close> of the third word).\<close>

definition fallbackDescription :: "string \<Rightarrow> string" where
  "fallbackDescription narr =
     ''Uma cena cinematogr'' @ [CHR 0xE1] @ ''fica mostrando: '' @ narr"

text \<open>\<open>generateVisualDescriptionForScene\<close> for the scene at \<open>index\<close>. The client and the
  filter over the characters come before the \<open>try\<close>; only the model call is inside it.\<close>

definition generateVisualDescriptionForScene ::
  "Env \<Rightarrow> nat \<Rightarrow> string \<Rightarrow> CharacterInfo list \<Rightarrow> string \<Rightarrow> genError + string" where
  "generateVisualDescriptionForScene env index narr charactersInfo key =
     (case getAiClient key of
        Inl e \<Rightarrow> Inl e
      | Inr _ \<Rightarrow>
          (case filterThrowing
                  (\<lambda>c. case regExpTest env (name c) narr of
                          None \<Rightarrow> None
                        | Some b \<Rightarrow> Some (b \<and> truthy (characteristic c)))
                  charactersInfo of
             None \<Rightarrow> Inl InvalidRegExp
           | Some charactersInScene \<Rightarrow>
               (case descriptionReply env index of
                  DescriptionThrows \<Rightarrow> Inr (fallbackDescription narr)
                | DescriptionText None \<Rightarrow> Inr (fallbackDescription narr)
                | DescriptionText (Some txt) \<Rightarrow>
                    if trim txt = [] then Inr (fallbackDescription narr)
                    else Inr (trim txt))))"

text \<open>\<open>generateImageForScene\<close> for the scene at \<open>index\<close>: every failure is a throw.\<close>

definition generateImageForScene ::
  "Env \<Rightarrow> nat \<Rightarrow> string \<Rightarrow> CharacterReference list \<Rightarrow> CharacterInfo list \<Rightarrow> string \<Rightarrow> string
     \<Rightarrow> string \<Rightarrow> genError + string" where
  "generateImageForScene env index description references charactersInfo style restriction key =
     (case getAiClient key of
        Inl e \<Rightarrow> Inl e
      | Inr _ \<Rightarrow>
          (case filterThrowing (\<lambda>c. regExpTest env (name c) description) references of
             None \<Rightarrow> Inl InvalidRegExp
           | Some relevantCharacters \<Rightarrow>
               (case filterThrowing
                       (\<lambda>c. if truthy (characteristic c) \<or> truthy (charContext c)
                             then regExpTest env (name c) description
                             else Some False)
                       charactersInfo of
                  None \<Rightarrow> Inl InvalidRegExp
                | Some allCharsInDescriptionWithTraits \<Rightarrow>
                    if relevantCharacters = []
                    then (case imageReply env index of
                            ImageData mime bytes \<Rightarrow>
                              if bytes \<noteq> [] then Inr (''data:image/jpeg;base64,'' @ bytes)
                              else Inl DefaultImageFailed
                          | _ \<Rightarrow> Inl DefaultImageFailed)
                    else (case imageReply env index of
                            ImageData mime bytes \<Rightarrow>
                              Inr (''data:'' @ mime @ '';base64,'' @ bytes)
                          | _ \<Rightarrow> Inl ReferenceImageFailed))))"

text \<open>The loop over \<open>scenesWithoutVisuals\<close> from index \<open>i\<close> on, with the \<open>completeScenes\<close>
  pushed so far. A throw of the description step leaves the loop; a throw of the image step
  is caught and gives the placeholder.\<close>

fun enrichLoop ::
  "Env \<Rightarrow> GenerateArgs \<Rightarrow> nat \<Rightarrow> SceneWithoutVisuals list \<Rightarrow> Scene list
     \<Rightarrow> genError + Scene list" where
  "enrichLoop env args i [] completeScenes = Inr completeScenes"
| "enrichLoop env args i (scene # rest) completeScenes =
     (case generateVisualDescriptionForScene env i (narration scene)
             (allCharactersInfo args) (apiKey args) of
        Inl e \<Rightarrow> Inl e
      | Inr description \<Rightarrow>
          (case generateImageForScene env i description (characterReferences args)
                  (allCharactersInfo args) (imageStyle args) (restrictionPrompt args)
                  (apiKey args) of
             Inr url \<Rightarrow>
               enrichLoop env args (i + 1) rest
                 (completeScenes @ [completeScene scene description url])
           | Inl _ \<Rightarrow>
               enrichLoop env args (i + 1) rest
                 (completeScenes @ [completeScene scene description PLACEHOLDER_IMAGE_URL])))"

text \<open>\<open>generateStoryboard\<close> of the backend service. The repository holds an older copy of
  the function for the browser, with the same segmentation and the same loop but without
  the mock branch and the API key argument; the model follows the backend one.\<close>

definition generateStoryboard :: "Env \<Rightarrow> GenerateArgs \<Rightarrow> genError + Scene list" where
  "generateStoryboard env args =
     (if mockMode env
      then (if stringIncludes (scriptOrSrtContent args) ''__MOCK_FAIL__'' then Inl MockFailure
            else buildMockScenes (scriptOrSrtContent args) (isSrt args) (pacing args))
      else (case (if isSrt args
                  then Inr (parseAndGroupSrt (scriptOrSrtContent args) (pacing args))
                  else splitScriptIntoScenesWithAI env (scriptOrSrtContent args)
                         (pacing args) (apiKey args)) of
              Inl e \<Rightarrow> Inl e
            | Inr scenesWithoutVisuals \<Rightarrow>
                if scenesWithoutVisuals = []
                then Inl (if isSrt args then NoValidSrtScenes else NoScenesIdentified)
                else enrichLoop env args 0 scenesWithoutVisuals []))"

text \<open>The segmentation a run of \<open>generateStoryboard\<close> works on: the list its mock branch
  calls \<open>sourceScenes\<close> and its main branch \<open>scenesWithoutVisuals\<close>.\<close>

definition segmentedScenes :: "Env \<Rightarrow> GenerateArgs \<Rightarrow> genError + SceneWithoutVisuals list" where
  "segmentedScenes env args =
     (if isSrt args then Inr (parseAndGroupSrt (scriptOrSrtContent args) (pacing args))
      else if mockMode env then Inr (splitScriptIntoMockScenes (scriptOrSrtContent args))
      else splitScriptIntoScenesWithAI env (scriptOrSrtContent args) (pacing args)
             (apiKey args))"

text \<open>Concrete environments and arguments: a model whose description call fails for the
  first scene and whose image call fails for the second; a subtitle request with and
  without an API key.\<close>

definition flakyEnv :: Env where
  "flakyEnv =
     \<lparr> mockMode = False,
       regExpTest = (\<lambda>n s. Some False),
       descriptionReply =
         (\<lambda>i. if i = 0 then DescriptionThrows else DescriptionText (Some ''Uma sala'')),
       imageReply = (\<lambda>i. if i = 1 then ImageThrows else ImageData ''image/jpeg'' ''AAAA''),
       splitReply = SplitThrows \<rparr>"

definition srtArgs :: "string \<Rightarrow> GenerateArgs" where
  "srtArgs key =
     \<lparr> characterReferences = [],
       allCharactersInfo = [],
       scriptOrSrtContent = twoCuesWithPause,
       isSrt = True,
       imageStyle = ''Filme Realista'',
       restrictionPrompt = [],
       delayBetweenScenes = 0,
       pacing = 10,
       apiKey = key \<rparr>"

definition mockEnv :: Env where
  "mockEnv = flakyEnv \<lparr> mockMode := True \<rparr>"

definition scriptArgs :: GenerateArgs where
  "scriptArgs = (srtArgs ''k'') \<lparr> scriptOrSrtContent := ''Cena um. Cena dois.'', isSrt := False \<rparr>"

section \<open>Job orchestrator (\<open>server.ts\<close>)\<close>

text \<open>
  The server is single-threaded: between two \<open>await\<close>s a handler runs without
  interleaving. The model is a state of the process and one \<open>step\<close> per uninterrupted
  piece of code: a request handler, a callback of the background task, a timer. Job objects
  are shared between the registry \<open>storyboardJobs\<close>, the closure of the background task and
  the close handlers of the subscribers, so they live in a store of their own
  (\<open>jobObjects\<close>, keyed by the job id, which \<open>randomUUID\<close> makes unique), and the
  registry is the set of ids whose object it holds. The writes to the project table are
  external and best-effort and are left out, as are the heartbeat comments of the event
  stream, which are not events.
\<close>

datatype StoryboardJobStatus = Running | Completed | Failed

text \<open>What \<open>writeSseEvent\<close> sends: the event name with the fields of its payload.
  \<open>ProgressEvent\<close>: projectId (only in the snapshot a subscriber gets first), status,
  message, updatedAt. \<open>CompletedEvent\<close>: projectId, status, message, updatedAt, sceneCount.
  \<open>FailedEvent\<close>: projectId, status, message, error, updatedAt.\<close>

datatype sseEvent =
    ProgressEvent "string option" StoryboardJobStatus string nat
  | CompletedEvent string StoryboardJobStatus string nat nat
  | FailedEvent string StoryboardJobStatus string "string option" nat

fun isTerminalEvent :: "sseEvent \<Rightarrow> bool" where
  "isTerminalEvent (ProgressEvent p s m u) = False"
| "isTerminalEvent (CompletedEvent p s m u n) = True"
| "isTerminalEvent (FailedEvent p s m e u) = True"

text \<open>\<open>request.user\<close> after \<open>jwtVerify\<close>.\<close>

record RequestUser =
  userIdent :: string
  role :: string

record StoryboardJob =
  jobId :: string
  userId :: string
  projectId :: string
  status :: StoryboardJobStatus
  message :: string
  createdAt :: nat
  updatedAt :: nat
  scenes :: "Scene list option"
  error :: "string option"
  clients :: "nat list"
  cleanupTimer :: "nat option"

text \<open>A subscriber's response stream (\<open>reply.raw\<close>), named by a handle. \<open>written\<close> is
  what has been sent, \<open>ended\<close> whether \<open>end()\<close> was called, \<open>writeFails\<close> whether a write
  to it throws, \<open>peerClosed\<close> whether the request's \<open>close\<close> event has been delivered,
  \<open>hasCloseHandler\<close> whether the handler registered one, and \<open>streamJob\<close> the job the
  request was made for. The set \<open>clients\<close> of a job is the list of its handles in insertion
  order; a pending cleanup timer is the time at which it is due.\<close>

record SseStream =
  written :: "sseEvent list"
  ended :: bool
  writeFails :: bool
  peerClosed :: bool
  hasCloseHandler :: bool
  streamJob :: string

datatype taskPhase = Generating | Persisting | Done

record Server =
  clock :: nat
  jobObjects :: "string \<rightharpoonup> StoryboardJob"
  storyboardJobs :: "string set"
  tasks :: "string \<rightharpoonup> taskPhase"
  streams :: "nat \<rightharpoonup> SseStream"

definition JOB_TTL_MS :: nat where
  "JOB_TTL_MS = 30 * 60 * 1000"

definition initialServer :: Server where
  "initialServer =
     \<lparr> clock = 0, jobObjects = Map.empty, storyboardJobs = {}, tasks = Map.empty,
       streams = Map.empty \<rparr>"

text \<open>\<open>storyboardJobs.get(jobId)\<close>.\<close>

definition lookupJob :: "Server \<Rightarrow> string \<Rightarrow> StoryboardJob option" where
  "lookupJob s jid = (if jid \<in> storyboardJobs s then jobObjects s jid else None)"

text \<open>\<open>writeSseEvent\<close>: \<open>None\<close> when the write throws.\<close>

definition writeSseEvent :: "SseStream \<Rightarrow> sseEvent \<Rightarrow> SseStream option" where
  "writeSseEvent raw event =
     (if writeFails raw then None else Some (raw \<lparr> written := written raw @ [event] \<rparr>))"

text \<open>The loop of \<open>broadcastJobEvent\<close> over the clients: the handles that stay in the set
  and the streams after the writes. A client whose write throws is deleted from the set.\<close>

fun broadcastLoop ::
  "nat list \<Rightarrow> sseEvent \<Rightarrow> (nat \<rightharpoonup> SseStream) \<Rightarrow> nat list \<times> (nat \<rightharpoonup> SseStream)" where
  "broadcastLoop [] event st = ([], st)"
| "broadcastLoop (client # rest) event st =
     (case st client of
        None \<Rightarrow> broadcastLoop rest event st
      | Some raw \<Rightarrow>
          (case writeSseEvent raw event of
             None \<Rightarrow> broadcastLoop rest event st
           | Some raw' \<Rightarrow>
               (let (kept, st') = broadcastLoop rest event (st(client \<mapsto> raw'))
                in (client # kept, st'))))"

definition broadcastJobEvent ::
  "StoryboardJob \<Rightarrow> sseEvent \<Rightarrow> (nat \<rightharpoonup> SseStream)
     \<Rightarrow> StoryboardJob \<times> (nat \<rightharpoonup> SseStream)" where
  "broadcastJobEvent job event st =
     (let (kept, st') = broadcastLoop (clients job) event st
      in (job \<lparr> clients := kept \<rparr>, st'))"

text \<open>\<open>for (const client of job.clients) { try { client.end() } catch {} }\<close>.\<close>

fun endClients :: "nat list \<Rightarrow> (nat \<rightharpoonup> SseStream) \<Rightarrow> (nat \<rightharpoonup> SseStream)" where
  "endClients [] st = st"
| "endClients (client # rest) st =
     (case st client of
        None \<Rightarrow> endClients rest st
      | Some raw \<Rightarrow> endClients rest (st(client \<mapsto> raw \<lparr> ended := True \<rparr>)))"

definition scheduleJobCleanup :: "StoryboardJob \<Rightarrow> nat \<Rightarrow> StoryboardJob" where
  "scheduleJobCleanup job now = job \<lparr> cleanupTimer := Some (now + JOB_TTL_MS) \<rparr>"

definition notifyJobProgress ::
  "StoryboardJob \<Rightarrow> string \<Rightarrow> nat \<Rightarrow> (nat \<rightharpoonup> SseStream)
     \<Rightarrow> StoryboardJob \<times> (nat \<rightharpoonup> SseStream)" where
  "notifyJobProgress job msg now st =
     (let job1 = job \<lparr> message := msg, updatedAt := now \<rparr>
      in broadcastJobEvent job1
           (ProgressEvent None (status job1) (message job1) (updatedAt job1)) st)"

text \<open>\<open>finishJobSuccess\<close> and \<open>finishJobFailure\<close> up to their \<open>await\<close>: the state
  change, the broadcast of the terminal event, the closing of the remaining clients.\<close>

definition finishJobSuccess ::
  "StoryboardJob \<Rightarrow> Scene list \<Rightarrow> nat \<Rightarrow> (nat \<rightharpoonup> SseStream)
     \<Rightarrow> StoryboardJob \<times> (nat \<rightharpoonup> SseStream)" where
  "finishJobSuccess job sceneList now st =
     (let job1 = job \<lparr> status := Completed, message := ''Storyboard completo!'',
                       updatedAt := now, scenes := Some sceneList \<rparr>;
          (job2, st2) = broadcastJobEvent job1
                          (CompletedEvent (projectId job1) (status job1) (message job1)
                             (updatedAt job1) (length sceneList)) st
      in (job2 \<lparr> clients := [] \<rparr>, endClients (clients job2) st2))"

definition finishJobFailure ::
  "StoryboardJob \<Rightarrow> string \<Rightarrow> nat \<Rightarrow> (nat \<rightharpoonup> SseStream)
     \<Rightarrow> StoryboardJob \<times> (nat \<rightharpoonup> SseStream)" where
  "finishJobFailure job err now st =
     (let job1 = job \<lparr> status := Failed, message := err, updatedAt := now,
                       error := Some err \<rparr>;
          (job2, st2) = broadcastJobEvent job1
                          (FailedEvent (projectId job1) (status job1) (message job1)
                             (error job1) (updatedAt job1)) st
      in (job2 \<lparr> clients := [] \<rparr>, endClients (clients job2) st2))"

definition canAccessJob :: "RequestUser \<Rightarrow> StoryboardJob \<Rightarrow> bool" where
  "canAccessJob requestUser job =
     (userIdent requestUser = userId job \<or> role requestUser = ''ADMIN'')"

text \<open>The message of a caught error, \<open>error?.message || 'Falha no job de geracao de
  storyboard.'\<close> (the source has a cedilla and a tilde in the fifth word).\<close>

definition failureMessage :: "string option \<Rightarrow> string" where
  "failureMessage err =
     (case err of
        None \<Rightarrow> ''Falha no job de gera'' @ [CHR 0xE7, CHR 0xE3] @ ''o de storyboard.''
      | Some m \<Rightarrow>
          if m = [] then ''Falha no job de gera'' @ [CHR 0xE7, CHR 0xE3] @ ''o de storyboard.''
          else m)"

text \<open>The replies of the two job endpoints that are not an event stream.\<close>

datatype httpReply =
    Unauthorized401
  | JobNotFound404
  | AccessDenied403
  | Accepted202 string StoryboardJobStatus string nat
  | BadRequest400 string StoryboardJobStatus string string nat
  | Ok200 string StoryboardJobStatus string "Scene list" nat

text \<open>\<open>GET /storyboard/jobs/:jobId/result\<close>. The user is \<open>None\<close> when \<open>jwtVerify\<close>
  throws. The fields of the payloads are projectId, status, message, then the error or the
  scenes, and updatedAt.\<close>

definition pollResult :: "Server \<Rightarrow> RequestUser option \<Rightarrow> string \<Rightarrow> httpReply" where
  "pollResult s requestUser jid =
     (case requestUser of
        None \<Rightarrow> Unauthorized401
      | Some u \<Rightarrow>
          (case lookupJob s jid of
             None \<Rightarrow> JobNotFound404
           | Some job \<Rightarrow>
               if \<not> canAccessJob u job then AccessDenied403
               else if status job = Running
               then Accepted202 (projectId job) (status job) (message job) (updatedAt job)
               else if status job = Failed
               then BadRequest400 (projectId job) (status job) (message job)
                      (case error job of
                         None \<Rightarrow> ''Falha no job.''
                       | Some e \<Rightarrow> if e = [] then ''Falha no job.'' else e)
                      (updatedAt job)
               else Ok200 (projectId job) (status job) (message job)
                      (case scenes job of None \<Rightarrow> [] | Some sc \<Rightarrow> sc)
                      (updatedAt job)))"

text \<open>\<open>GET /storyboard/jobs/:jobId/events\<close> for a fresh response stream \<open>client\<close>: the
  reply when the request is refused, and the state after the handler.\<close>

definition eventsRefusal :: "Server \<Rightarrow> RequestUser option \<Rightarrow> string \<Rightarrow> httpReply option" where
  "eventsRefusal s requestUser jid =
     (case requestUser of
        None \<Rightarrow> Some Unauthorized401
      | Some u \<Rightarrow>
          (case lookupJob s jid of
             None \<Rightarrow> Some JobNotFound404
           | Some job \<Rightarrow> if \<not> canAccessJob u job then Some AccessDenied403 else None))"

definition subscribe :: "nat \<Rightarrow> RequestUser option \<Rightarrow> string \<Rightarrow> Server \<Rightarrow> Server" where
  "subscribe client requestUser jid s =
     (if eventsRefusal s requestUser jid \<noteq> None then s
      else (case lookupJob s jid of
              None \<Rightarrow> s
            | Some job \<Rightarrow>
                (let snapshot = ProgressEvent (Some (projectId job)) (status job) (message job)
                                  (updatedAt job);
                     raw = \<lparr> written = [snapshot], ended = False, writeFails = False,
                             peerClosed = False, hasCloseHandler = False, streamJob = jid \<rparr>
                 in if status job = Completed
                    then s \<lparr> streams := (streams s)(client \<mapsto>
                           raw \<lparr> written := [snapshot,
                                   CompletedEvent (projectId job) (status job) (message job)
                                     (updatedAt job)
                                     (case scenes job of None \<Rightarrow> 0 | Some sc \<Rightarrow> length sc)],
                                 ended := True \<rparr>) \<rparr>
                    else if status job = Failed
                    then s \<lparr> streams := (streams s)(client \<mapsto>
                           raw \<lparr> written := [snapshot,
                                   FailedEvent (projectId job) (status job) (message job)
                                     (error job) (updatedAt job)],
                                 ended := True \<rparr>) \<rparr>
                    else s \<lparr> streams := (streams s)(client \<mapsto> raw \<lparr> hasCloseHandler := True \<rparr>),
                             jobObjects := (jobObjects s)(jid \<mapsto>
                               job \<lparr> clients := (if client \<in> set (clients job) then clients job
                                                  else clients job @ [client]) \<rparr>) \<rparr>)))"

text \<open>What can happen to the server, one uninterrupted piece of code each.\<close>

datatype action =
    StartJob string string string
  | NotifyProgress string string
  | GenerationReturns string "Scene list"
  | GenerationThrows string "string option"
  | PersistenceSettles string
  | CleanupTimerFires string
  | Subscribe nat "RequestUser option" string
  | PeerCloses nat
  | StreamBreaks nat
  | Tick nat

text \<open>
  \<open>StartJob jid uid pid\<close>: the end of \<open>POST /storyboard/generate/start\<close>, from the creation of
  the job to the first \<open>await\<close> of the background task (\<open>jid\<close> is the fresh UUID).
  \<open>NotifyProgress\<close>: an \<open>onProgress\<close> call of the running generation.
  \<open>GenerationReturns\<close>, \<open>GenerationThrows\<close>: the generation settles and the task runs
  \<open>finishJobSuccess\<close> or \<open>finishJobFailure\<close> up to its \<open>await\<close>.
  \<open>PersistenceSettles\<close>: the awaited project update settles and the cleanup is scheduled.
  \<open>CleanupTimerFires\<close>: the timer callback, not before the timer is due.
  \<open>Subscribe\<close>: the events endpoint for a fresh response stream.
  \<open>PeerCloses\<close>: the \<open>close\<close> event of a subscriber's request.
  \<open>StreamBreaks\<close>: from now on writes to the stream throw.
  \<open>Tick\<close>: time passes.
  A step whose moment has not come (a callback of a task that is not in that phase, a
  handle that is not fresh) leaves the state unchanged.
  The \<open>catch\<close> of the background task encloses \<open>await finishJobSuccess(...)\<close> too, but
  nothing in \<open>finishJobSuccess\<close> throws past it: the writes and the \<open>end()\<close> calls are
  inside \<open>try\<close> blocks, the scenes are plain data that \<open>JSON.stringify\<close> accepts, and a
  rejection of the project update is swallowed by its own \<open>catch\<close>. So
  \<open>finishJobFailure\<close> runs only for a throw of the generation, which is
  \<open>GenerationThrows\<close>.
\<close>

definition step :: "action \<Rightarrow> Server \<Rightarrow> Server" where
  "step a s =
     (case a of
        StartJob jid uid pid \<Rightarrow>
          (if jobObjects s jid \<noteq> None then s
           else (let job = \<lparr> jobId = jid, userId = uid, projectId = pid, status = Running,
                             message = ''Job criado. Iniciando processamento...'',
                             createdAt = clock s, updatedAt = clock s, scenes = None,
                             error = None, clients = [], cleanupTimer = None \<rparr>;
                     (job', st') = notifyJobProgress job
                                     (''Preparando gera'' @ [CHR 0xE7, CHR 0xE3]
                                        @ ''o do storyboard...'')
                                     (clock s) (streams s)
                 in s \<lparr> jobObjects := (jobObjects s)(jid \<mapsto> job'),
                        storyboardJobs := insert jid (storyboardJobs s),
                        tasks := (tasks s)(jid \<mapsto> Generating),
                        streams := st' \<rparr>))
      | NotifyProgress jid msg \<Rightarrow>
          (case (tasks s jid, jobObjects s jid) of
             (Some Generating, Some job) \<Rightarrow>
               (let (job', st') = notifyJobProgress job msg (clock s) (streams s)
                in s \<lparr> jobObjects := (jobObjects s)(jid \<mapsto> job'), streams := st' \<rparr>)
           | _ \<Rightarrow> s)
      | GenerationReturns jid sceneList \<Rightarrow>
          (case (tasks s jid, jobObjects s jid) of
             (Some Generating, Some job) \<Rightarrow>
               (let (job', st') = finishJobSuccess job sceneList (clock s) (streams s)
                in s \<lparr> jobObjects := (jobObjects s)(jid \<mapsto> job'), streams := st',
                       tasks := (tasks s)(jid \<mapsto> Persisting) \<rparr>)
           | _ \<Rightarrow> s)
      | GenerationThrows jid err \<Rightarrow>
          (case (tasks s jid, jobObjects s jid) of
             (Some Generating, Some job) \<Rightarrow>
               (let (job', st') = finishJobFailure job (failureMessage err) (clock s) (streams s)
                in s \<lparr> jobObjects := (jobObjects s)(jid \<mapsto> job'), streams := st',
                       tasks := (tasks s)(jid \<mapsto> Persisting) \<rparr>)
           | _ \<Rightarrow> s)
      | PersistenceSettles jid \<Rightarrow>
          (case (tasks s jid, jobObjects s jid) of
             (Some Persisting, Some job) \<Rightarrow>
               s \<lparr> jobObjects := (jobObjects s)(jid \<mapsto> scheduleJobCleanup job (clock s)),
                   tasks := (tasks s)(jid \<mapsto> Done) \<rparr>
           | _ \<Rightarrow> s)
      | CleanupTimerFires jid \<Rightarrow>
          (case jobObjects s jid of
             Some job \<Rightarrow>
               (case cleanupTimer job of
                  Some due \<Rightarrow>
                    if due \<le> clock s
                    then s \<lparr> storyboardJobs := storyboardJobs s - {jobId job},
                             jobObjects := (jobObjects s)(jid \<mapsto> job \<lparr> cleanupTimer := None \<rparr>) \<rparr>
                    else s
                | None \<Rightarrow> s)
           | None \<Rightarrow> s)
      | Subscribe client requestUser jid \<Rightarrow>
          (if streams s client \<noteq> None then s else subscribe client requestUser jid s)
      | PeerCloses client \<Rightarrow>
          (case streams s client of
             None \<Rightarrow> s
           | Some raw \<Rightarrow>
               (let s1 = s \<lparr> streams := (streams s)(client \<mapsto> raw \<lparr> peerClosed := True \<rparr>) \<rparr>
                in if hasCloseHandler raw \<and> \<not> peerClosed raw
                   then (case jobObjects s (streamJob raw) of
                           None \<Rightarrow> s1
                         | Some job \<Rightarrow>
                             s1 \<lparr> jobObjects := (jobObjects s)(streamJob raw \<mapsto>
                                    job \<lparr> clients := removeAll client (clients job) \<rparr>) \<rparr>)
                   else s1))
      | StreamBreaks client \<Rightarrow>
          (case streams s client of
             None \<Rightarrow> s
           | Some raw \<Rightarrow> s \<lparr> streams := (streams s)(client \<mapsto> raw \<lparr> writeFails := True \<rparr>) \<rparr>)
      | Tick d \<Rightarrow> s \<lparr> clock := clock s + d \<rparr>)"

text \<open>The state after a sequence of steps, from a given state.\<close>

fun run :: "Server \<Rightarrow> action list \<Rightarrow> Server" where
  "run s [] = s"
| "run s (a # as) = run (step a s) as"

text \<open>Invariants of the reachable states, used in the proofs. \<open>terminalFor job event\<close>: the
  event is the terminal event of the job as it stands. \<open>streamOk client raw job\<close>: the stream
  of a subscriber of \<open>job\<close> is in one of the three shapes it can have (attached, closed by
  the server after its terminal event, or dropped).\<close>

fun terminalFor :: "StoryboardJob \<Rightarrow> sseEvent \<Rightarrow> bool" where
  "terminalFor job (ProgressEvent p st m u) = False"
| "terminalFor job (CompletedEvent p st m u n) =
     (status job = Completed \<and> p = projectId job \<and> st = Completed \<and> m = message job
      \<and> u = updatedAt job \<and> (case scenes job of None \<Rightarrow> False | Some sc \<Rightarrow> n = length sc))"
| "terminalFor job (FailedEvent p st m e u) =
     (status job = Failed \<and> p = projectId job \<and> st = Failed \<and> m = message job
      \<and> e = error job \<and> u = updatedAt job)"

definition streamOk :: "nat \<Rightarrow> SseStream \<Rightarrow> StoryboardJob \<Rightarrow> bool" where
  "streamOk client raw job =
     (written raw \<noteq> []
      \<and> (if ended raw
         then status job \<noteq> Running \<and> client \<notin> set (clients job)
              \<and> (\<forall>e \<in> set (butlast (written raw)). \<not> isTerminalEvent e)
              \<and> terminalFor job (last (written raw))
         else (\<forall>e \<in> set (written raw). \<not> isTerminalEvent e) \<and> hasCloseHandler raw
              \<and> (if client \<in> set (clients job) then \<not> peerClosed raw
                  else peerClosed raw \<or> writeFails raw)))"

definition jobOk :: "Server \<Rightarrow> string \<Rightarrow> StoryboardJob \<Rightarrow> bool" where
  "jobOk s jid job =
     (jobId job = jid
      \<and> tasks s jid \<noteq> None
      \<and> (tasks s jid = Some Generating \<longleftrightarrow> status job = Running)
      \<and> (status job = Completed \<longrightarrow> scenes job \<noteq> None)
      \<and> (status job = Failed \<longrightarrow> (\<exists>e. error job = Some e \<and> e \<noteq> []))
      \<and> (status job \<noteq> Running \<longrightarrow> clients job = [])
      \<and> distinct (clients job)
      \<and> (\<forall>c \<in> set (clients job). \<exists>raw. streams s c = Some raw \<and> streamJob raw = jid)
      \<and> (cleanupTimer job \<noteq> None \<or> jid \<notin> storyboardJobs s \<longrightarrow> tasks s jid = Some Done))"

definition serverOk :: "Server \<Rightarrow> bool" where
  "serverOk s =
     ((\<forall>jid job. jobObjects s jid = Some job \<longrightarrow> jobOk s jid job)
      \<and> (\<forall>jid \<in> storyboardJobs s. jobObjects s jid \<noteq> None)
      \<and> (\<forall>c raw. streams s c = Some raw \<longrightarrow>
            (\<exists>job. jobObjects s (streamJob raw) = Some job \<and> streamOk c raw job)))"

text \<open>\<open>timeOk\<close>: no job was updated in the future, a pending cleanup timer is due no earlier
  than \<open>JOB_TTL_MS\<close> after the job's last update, and a job that has left the registry was
  last updated at least \<open>JOB_TTL_MS\<close> ago.\<close>

definition timeOk :: "Server \<Rightarrow> bool" where
  "timeOk s =
     (\<forall>jid job. jobObjects s jid = Some job \<longrightarrow>
        updatedAt job \<le> clock s
        \<and> (\<forall>due. cleanupTimer job = Some due \<longrightarrow> updatedAt job + JOB_TTL_MS \<le> due)
        \<and> (jid \<notin> storyboardJobs s \<longrightarrow> updatedAt job + JOB_TTL_MS \<le> clock s))"

text \<open>Auxiliary functions for the proofs: what a write of an event, and a write followed by
  \<open>end()\<close>, do to a stream, and whether a client's stream accepts a write.\<close>

definition afterWrite :: "sseEvent \<Rightarrow> SseStream \<Rightarrow> SseStream" where
  "afterWrite event raw = (if writeFails raw then raw else raw \<lparr> written := written raw @ [event] \<rparr>)"

definition afterTerminal :: "sseEvent \<Rightarrow> SseStream \<Rightarrow> SseStream" where
  "afterTerminal event raw =
     (if writeFails raw then raw
      else raw \<lparr> written := written raw @ [event], ended := True \<rparr>)"

definition canWrite :: "(nat \<rightharpoonup> SseStream) \<Rightarrow> nat \<Rightarrow> bool" where
  "canWrite st c = (case st c of None \<Rightarrow> False | Some raw \<Rightarrow> \<not> writeFails raw)"

text \<open>Concrete users and traces.\<close>

definition completedTrace :: "action list" where
  "completedTrace =
     [StartJob ''j1'' ''u1'' ''p1'', GenerationReturns ''j1'' [sceneOfDuration 1 2]]"

definition owner :: RequestUser where
  "owner = \<lparr> userIdent = ''u1'', role = ''USER'' \<rparr>"

definition watchedTrace :: "action list" where
  "watchedTrace =
     [StartJob ''j1'' ''u1'' ''p1'', Subscribe 1 (Some owner) ''j1'',
      NotifyProgress ''j1'' ''Gerando imagem'', Tick 7,
      GenerationReturns ''j1'' [sceneOfDuration 1 2]]"

definition failedTrace :: "action list" where
  "failedTrace =
     [StartJob ''j2'' ''u1'' ''p2'', Tick 3, GenerationThrows ''j2'' (Some ''Falha simulada''),
      PersistenceSettles ''j2'']"

section \<open>Properties of the subtitle segmenter\<close>

lemma splitWs_nonempty: "splitWs s \<noteq> []"
  by (induction s rule: splitWs.induct) (auto split: list.splits)

lemma wordStarts_dropWhile: "wordStarts False (dropWhile isSpace s) = wordStarts False s"
  by (induction s) auto

lemma splitWs_wordStarts:
  "length (filter (\<lambda>w. w \<noteq> []) (splitWs s)) = wordStarts False s
   \<and> length (filter (\<lambda>w. w \<noteq> []) (tl (splitWs s))) = wordStarts True s"
proof (induction s rule: splitWs.induct)
  case 1
  show ?case by simp
next
  case (2 c cs)
  show ?case
  proof (cases "isSpace c")
    case True
    with 2 show ?thesis by (simp add: wordStarts_dropWhile)
  next
    case False
    obtain w ws where sp: "splitWs cs = w # ws"
      using splitWs_nonempty [of cs] by (cases "splitWs cs") auto
    with 2 False show ?thesis by (auto split: if_splits)
  qed
qed

lemma wordCount_wordStarts: "wordCount s = wordStarts False s"
  by (simp add: wordCount_def splitWs_wordStarts)

lemma wordStarts_append_space:
  "wordStarts b (s @ CHR '' '' # t) = wordStarts b s + wordStarts False t"
  by (induction s arbitrary: b) (auto simp: isSpace_def)

lemma wordCount_join: "wordCount (s @ CHR '' '' # t) = wordCount s + wordCount t"
  by (simp add: wordCount_wordStarts wordStarts_append_space)

lemma groupLoop_acc:
  "groupLoop m rest cur st le acc = acc @ groupLoop m rest cur st le []"
proof (induction rest arbitrary: cur st le acc)
  case Nil
  show ?case by simp
next
  case (Cons line rest)
  show ?case
    using Cons.IH [of "lineText line" "startTime line" "endTime line" "acc @ [\<lparr> groupNarration = cur, groupStartTime = st, groupEndTime = le \<rparr>]"]
      Cons.IH [of "lineText line" "startTime line" "endTime line" "[\<lparr> groupNarration = cur, groupStartTime = st, groupEndTime = le \<rparr>]"]
      Cons.IH [of "cur @ '' '' @ lineText line" st "endTime line" acc]
    by (simp add: Let_def)
qed

lemma groupLoop_nonempty: "groupLoop m rest cur st le acc \<noteq> []"
  by (induction rest arbitrary: cur st le acc) (auto simp: Let_def)

lemma groupLoop_hd:
  "groupStartTime (hd (groupLoop m rest cur st le [])) = st"
proof (induction rest arbitrary: cur st le)
  case Nil
  show ?case by simp
next
  case (Cons line rest)
  show ?case
    using Cons.IH [of "cur @ '' '' @ lineText line" st "endTime line"]
      groupLoop_acc [of m rest "lineText line" "startTime line" "endTime line" "[\<lparr> groupNarration = cur, groupStartTime = st, groupEndTime = le \<rparr>]"]
    by (simp add: Let_def)
qed

lemma groupLoop_last:
  "groupEndTime (last (groupLoop m rest cur st le acc)) = last (le # map endTime rest)"
proof (induction rest arbitrary: cur st le acc)
  case Nil
  show ?case by simp
next
  case (Cons line rest)
  show ?case
    using Cons.IH [of "cur @ '' '' @ lineText line" st "endTime line" acc]
      Cons.IH [of "lineText line" "startTime line" "endTime line" "acc @ [\<lparr> groupNarration = cur, groupStartTime = st, groupEndTime = le \<rparr>]"]
    by (simp add: Let_def)
qed

lemma groupTimedLines_ends:
  assumes "timedLines \<noteq> []"
  shows "groupTimedLines timedLines m \<noteq> []"
    and "groupStartTime (hd (groupTimedLines timedLines m)) = startTime (hd timedLines)"
    and "groupEndTime (last (groupTimedLines timedLines m)) = endTime (last timedLines)"
  using assms
  by (cases timedLines; simp add: groupTimedLines_def groupLoop_nonempty groupLoop_hd
        groupLoop_last last_map)+

lemma rawList_length: "length (rawList gs) = length gs"
  by (induction gs rule: rawList.induct) auto

lemma rawList_nth:
  "i < length gs \<Longrightarrow> rawList gs ! i =
     (if Suc i < length gs then groupStartTime (gs ! Suc i) - groupStartTime (gs ! i)
      else groupEndTime (gs ! i) - groupStartTime (gs ! i))"
proof (induction gs arbitrary: i rule: rawList.induct)
  case 1
  then show ?case by simp
next
  case (2 g)
  then show ?case by simp
next
  case (3 g h gs)
  then show ?case by (cases i) auto
qed

lemma rawDurations_rawList: "rawDurations gs = rawList gs"
  by (rule nth_equalityI)
     (auto simp: rawDurations_def rawList_length rawList_nth nth_enumerate_eq rawDuration_def)

lemma rawList_sum:
  "gs \<noteq> [] \<Longrightarrow> sum_list (rawList gs) = groupEndTime (last gs) - groupStartTime (hd gs)"
  by (induction gs rule: rawList.induct) auto

lemmas parse_eval = parseTimedLines_def parseBlock_def trim_def isSpace_def isDigit_def
  matchTimeLineAt_def parseSrtTimestamp_def parseInt_def digitValue_def List.map_filter_def
  Let_def

lemma finalizeGroups_length: "length (finalizeGroups gs) = length gs"
  by (simp add: finalizeGroups_def)

lemma finalizeGroups_nth:
  "i < length gs \<Longrightarrow> finalizeGroups gs ! i = groupToScene gs i (gs ! i)"
  by (simp add: finalizeGroups_def nth_enumerate_eq)

lemma parseAndGroupSrt_finalize:
  "parseAndGroupSrt c m = finalizeGroups (sceneGroupsOf c m)"
  by (simp add: parseAndGroupSrt_def sceneGroupsOf_def Let_def groupTimedLines_def
        finalizeGroups_def enumerate_simps)

lemma finalizeGroups_durations:
  "map durationSeconds (finalizeGroups gs) = map (max (1 / 10)) (rawDurations gs)"
  by (simp add: finalizeGroups_def rawDurations_def groupToScene_def Let_def split_def)

lemma finalizeGroups_narrations:
  "map narration (finalizeGroups gs) = map groupNarration gs"
  by (rule nth_equalityI)
     (auto simp: finalizeGroups_def groupToScene_def Let_def nth_enumerate_eq)

subsection \<open>Claim C1\<close>


lemma twoCuesWithPause_groups:
  "sceneGroupsOf twoCuesWithPause 10 =
     [\<lparr> groupNarration = ''one two three four'', groupStartTime = 1, groupEndTime = 3 \<rparr>,
      \<lparr> groupNarration = ''five six seven eight'', groupStartTime = 5, groupEndTime = 7 \<rparr>]"
  by (simp add: sceneGroupsOf_def twoCuesWithPause_def parse_eval groupTimedLines_def
        wordCount_def MAX_PAUSE_SECONDS_def)


lemma shortCue_lines:
  "parseTimedLines shortCue = [\<lparr> startTime = 0, endTime = 1 / 20, lineText = ''Oi'' \<rparr>]"
  by (simp add: shortCue_def parse_eval)

subsection \<open>Claim C2\<close>


lemma sum_list_max_ge: "sum_list xs \<le> sum_list (map (max (c::real)) xs)"
  by (induction xs) auto

lemma sum_list_max_eq: "\<forall>d\<in>set xs. c \<le> d \<Longrightarrow> sum_list (map (max (c::real)) xs) = sum_list xs"
  by (induction xs) auto



lemma groupLoop_budget:
  assumes "\<forall>g \<in> set acc. P (groupNarration g)"
    and "real (wordCount cur) \<le> m \<or> P cur"
    and "\<forall>l \<in> set rest. real (wordCount (lineText l)) \<le> m \<or> P (lineText l)"
    and "\<And>s. real (wordCount s) \<le> m \<Longrightarrow> P s"
  shows "\<forall>g \<in> set (groupLoop m rest cur st le acc). P (groupNarration g)"
  using assms(1-3)
proof (induction rest arbitrary: cur st le acc)
  case Nil
  then show ?case using assms(4) by auto
next
  case (Cons line rest)
  let ?g = "\<lparr> groupNarration = cur, groupStartTime = st, groupEndTime = le \<rparr>"
  show ?case
  proof (cases "startTime line - le > MAX_PAUSE_SECONDS
                \<or> real (wordCount cur + wordCount (lineText line)) > m")
    case True
    have "\<forall>g \<in> set (groupLoop m rest (lineText line) (startTime line) (endTime line)
                       (acc @ [?g])). P (groupNarration g)"
      using Cons.prems assms(4) by (intro Cons.IH) auto
    with True show ?thesis by (simp add: Let_def)
  next
    case False
    then have "real (wordCount (cur @ '' '' @ lineText line)) \<le> m"
      by (simp add: wordCount_join)
    then have "\<forall>g \<in> set (groupLoop m rest (cur @ '' '' @ lineText line) st (endTime line) acc).
                 P (groupNarration g)"
      using Cons.prems by (intro Cons.IH) auto
    with False show ?thesis by (simp add: Let_def)
  qed
qed

lemma groupLoop_keeps_long_current:
  assumes "real (wordCount cur) > m"
  shows "\<exists>g \<in> set (groupLoop m rest cur st le acc). groupNarration g = cur"
proof (cases rest)
  case Nil
  then show ?thesis by simp
next
  case (Cons line rest')
  let ?g = "\<lparr> groupNarration = cur, groupStartTime = st, groupEndTime = le \<rparr>"
  have "real (wordCount cur + wordCount (lineText line)) > m"
    using assms by simp
  then have "groupLoop m rest cur st le acc
      = (acc @ [?g]) @ groupLoop m rest' (lineText line) (startTime line) (endTime line) []"
    using Cons groupLoop_acc [of m rest' "lineText line" "startTime line" "endTime line" "acc @ [?g]"]
    by (simp add: Let_def)
  then show ?thesis by simp
qed

lemma groupLoop_keeps_long_lines:
  assumes "l \<in> set rest" and "real (wordCount (lineText l)) > m"
  shows "\<exists>g \<in> set (groupLoop m rest cur st le acc). groupNarration g = lineText l"
  using assms(1)
proof (induction rest arbitrary: cur st le acc)
  case Nil
  then show ?case by simp
next
  case (Cons line rest)
  show ?case
  proof (cases "line = l")
    case True
    have "real (wordCount cur + wordCount (lineText line)) > m"
      using assms(2) True by simp
    then show ?thesis
      using groupLoop_keeps_long_current [OF assms(2), of rest "startTime l" "endTime l"] True
      by (simp add: Let_def)
  next
    case False
    with Cons.prems have "l \<in> set rest" by simp
    then show ?thesis using Cons.IH by (simp add: Let_def)
  qed
qed

subsection \<open>Claim C3\<close>

text \<open>
  Claim C3. Every scene's narration has at most \<open>maxWordsPerScene\<close> words, unless the
  narration is the text of one source line that alone has more words than the budget; and
  every such over-long line is the narration of a scene of its own (it is neither split nor
  merged with a neighbour).
\<close>

theorem segment_word_budget:
  "(\<forall>scene \<in> set (parseAndGroupSrt srtContent maxWordsPerScene).
      real (wordCount (narration scene)) \<le> maxWordsPerScene
      \<or> (\<exists>line \<in> set (parseTimedLines srtContent).
            narration scene = lineText line
            \<and> real (wordCount (lineText line)) > maxWordsPerScene))
   \<and> (\<forall>line \<in> set (parseTimedLines srtContent).
        real (wordCount (lineText line)) > maxWordsPerScene
        \<longrightarrow> (\<exists>scene \<in> set (parseAndGroupSrt srtContent maxWordsPerScene).
               narration scene = lineText line))"
proof -
  let ?lines = "parseTimedLines srtContent"
  let ?m = maxWordsPerScene
  let ?gs = "sceneGroupsOf srtContent ?m"
  let ?P = "\<lambda>s. real (wordCount s) \<le> ?m
                \<or> (\<exists>line \<in> set ?lines. s = lineText line \<and> real (wordCount (lineText line)) > ?m)"
  have narr: "narration ` set (parseAndGroupSrt srtContent ?m) = groupNarration ` set ?gs"
    using finalizeGroups_narrations [of ?gs]
    by (metis parseAndGroupSrt_finalize set_map)
  have g1: "\<forall>g \<in> set ?gs. ?P (groupNarration g)"
  proof (cases ?lines)
    case Nil
    then show ?thesis by (simp add: sceneGroupsOf_def groupTimedLines_def)
  next
    case (Cons first rest)
    have "\<forall>g \<in> set (groupLoop ?m rest (lineText first) (startTime first) (endTime first) []).
            ?P (groupNarration g)"
      by (rule groupLoop_budget) (use Cons in \<open>auto simp: not_le\<close>)
    then show ?thesis using Cons by (simp add: sceneGroupsOf_def groupTimedLines_def)
  qed
  have g2: "\<exists>g \<in> set ?gs. groupNarration g = lineText line"
    if "line \<in> set ?lines" and "real (wordCount (lineText line)) > ?m" for line
  proof (cases ?lines)
    case Nil
    with that show ?thesis by simp
  next
    case (Cons first rest)
    show ?thesis
    proof (cases "line = first")
      case True
      then show ?thesis
        using groupLoop_keeps_long_current [OF that(2), of rest "startTime first" "endTime first" "[]"]
          Cons by (simp add: sceneGroupsOf_def groupTimedLines_def)
    next
      case False
      with that(1) Cons have "line \<in> set rest" by simp
      then show ?thesis
        using groupLoop_keeps_long_lines [OF _ that(2), of rest] Cons
        by (simp add: sceneGroupsOf_def groupTimedLines_def)
    qed
  qed
  show ?thesis
  proof (intro conjI ballI impI)
    fix scene assume "scene \<in> set (parseAndGroupSrt srtContent ?m)"
    then have "narration scene \<in> groupNarration ` set ?gs" using narr by blast
    then show "?P (narration scene)" using g1 by auto
  next
    fix line assume "line \<in> set ?lines" "real (wordCount (lineText line)) > ?m"
    then obtain g where "g \<in> set ?gs" "groupNarration g = lineText line" using g2 by blast
    then have "lineText line \<in> narration ` set (parseAndGroupSrt srtContent ?m)"
      using narr by force
    then show "\<exists>scene \<in> set (parseAndGroupSrt srtContent ?m). narration scene = lineText line"
      by force
  qed
qed

lemma longMiddleCue_lines:
  "parseTimedLines longMiddleCue =
     [\<lparr> startTime = 1, endTime = 2, lineText = ''a b'' \<rparr>,
      \<lparr> startTime = 2, endTime = 4, lineText = ''c d e f g'' \<rparr>,
      \<lparr> startTime = 4, endTime = 5, lineText = ''h'' \<rparr>]"
  by (simp add: longMiddleCue_def parse_eval)

text \<open>The theorem at three cues with a budget of three words: the five-word cue in the
  middle is a scene of its own, the others stay within the budget.\<close>

theorem segment_word_budget_witness:
  "map narration (parseAndGroupSrt longMiddleCue 3) = [''a b'', ''c d e f g'', ''h'']
   \<and> map lineText (parseTimedLines longMiddleCue) = [''a b'', ''c d e f g'', ''h'']
   \<and> map wordCount [''a b'', ''c d e f g'', ''h''] = [2, 5, 1]"
proof -
  have wc: "wordCount ''a b'' = 2" "wordCount ''c d e f g'' = 5" "wordCount ''h'' = 1"
    by (simp_all add: wordCount_def isSpace_def)
  have "map narration (parseAndGroupSrt longMiddleCue 3) = [''a b'', ''c d e f g'', ''h'']"
    by (simp add: parseAndGroupSrt_def longMiddleCue_lines Let_def groupTimedLines_def wc
          wordCount_join MAX_PAUSE_SECONDS_def finalizeGroups_def enumerate_simps groupToScene_def)
  then show ?thesis
    using segment_word_budget [of longMiddleCue 3] wc by (simp add: longMiddleCue_lines)
qed

section \<open>Properties of the video timeline compositor\<close>

lemma initialScale_covers:
  assumes "0 < iw" "0 < ih" "0 < cw" "0 < ch"
  shows "cw \<le> iw * initialScale iw ih cw ch" and "ch \<le> ih * initialScale iw ih cw ch"
    and "0 < initialScale iw ih cw ch"
  using assms by (auto simp: initialScale_def Let_def field_simps)

lemma offset_bounds:
  assumes "c \<le> w" and "- (1 / 2) \<le> p" and "p \<le> 1 / 2"
  shows "0 \<le> getMaxOffset w c + p * getMaxOffset w c"
    and "getMaxOffset w c + p * getMaxOffset w c \<le> w - c"
    and "0 \<le> getMaxOffset w c - p * getMaxOffset w c"
    and "getMaxOffset w c - p * getMaxOffset w c \<le> w - c"
proof -
  define m where "m = getMaxOffset w c"
  define q where "q = p * m"
  have m2: "2 * m = w - c" and m0: "0 \<le> m"
    using assms(1) by (simp_all add: m_def getMaxOffset_def)
  have lo: "- (m / 2) \<le> q"
    unfolding q_def using mult_right_mono [OF assms(2) m0] by simp
  have hi: "q \<le> m / 2"
    unfolding q_def using mult_right_mono [OF assms(3) m0] by simp
  have a: "0 \<le> m + q" using lo hi m2 m0 by linarith
  have b: "m + q \<le> w - c" using lo hi m2 m0 by linarith
  have c: "0 \<le> m - q" using lo hi m2 m0 by linarith
  have d: "m - q \<le> w - c" using lo hi m2 m0 by linarith
  show "0 \<le> getMaxOffset w c + p * getMaxOffset w c"
    using a by (simp only: m_def q_def)
  show "getMaxOffset w c + p * getMaxOffset w c \<le> w - c"
    using b by (simp only: m_def q_def)
  show "0 \<le> getMaxOffset w c - p * getMaxOffset w c"
    using c by (simp only: m_def q_def)
  show "getMaxOffset w c - p * getMaxOffset w c \<le> w - c"
    using d by (simp only: m_def q_def)
qed

lemma convex_nonneg:
  assumes "0 \<le> a" "0 \<le> b" "0 \<le> t" "t \<le> 1"
  shows "0 \<le> a + (b - a) * (t::real)"
proof -
  have "a + (b - a) * t = a * (1 - t) + b * t" by (simp add: algebra_simps)
  moreover have "0 \<le> a * (1 - t)" "0 \<le> b * t" using assms by simp_all
  ultimately show ?thesis by linarith
qed

lemma scale_bounds:
  "0 < s \<Longrightarrow> s \<le> startScale z s \<and> startScale z s \<le> 12 / 10 * s
     \<and> s \<le> endScale z s \<and> endScale z s \<le> 12 / 10 * s"
  by (simp add: startScale_def endScale_def)

lemma transform_ends_cover:
  assumes "0 < iw" "0 < ih" "0 < cw" "0 < ch"
    and "0 \<le> r2" "r2 \<le> 1" "0 \<le> r3" "r3 \<le> 1"
  shows "coversCanvas (destStart (getKenBurnsTransforms iw ih cw ch r1 r2 r3)) cw ch"
    and "coversCanvas (destEnd (getKenBurnsTransforms iw ih cw ch r1 r2 r3)) cw ch"
proof -
  define s where "s = initialScale iw ih cw ch"
  define z where "z = (r1 > 1 / 2)"
  have s: "cw \<le> iw * s" "ch \<le> ih * s" "0 < s"
    using initialScale_covers [OF assms(1-4)] by (simp_all add: s_def)
  have sb: "s \<le> startScale z s" "s \<le> endScale z s"
    using scale_bounds [OF s(3), of z] by simp_all
  have w1: "cw \<le> iw * startScale z s"
    using s(1) mult_left_mono [OF sb(1), of iw] assms(1) by linarith
  have h1: "ch \<le> ih * startScale z s"
    using s(2) mult_left_mono [OF sb(1), of ih] assms(2) by linarith
  have w2: "cw \<le> iw * endScale z s"
    using s(1) mult_left_mono [OF sb(2), of iw] assms(1) by linarith
  have h2: "ch \<le> ih * endScale z s"
    using s(2) mult_left_mono [OF sb(2), of ih] assms(2) by linarith
  have px: "- (1 / 2) \<le> r2 - 1 / 2" "r2 - 1 / 2 \<le> 1 / 2"
    and py: "- (1 / 2) \<le> r3 - 1 / 2" "r3 - 1 / 2 \<le> 1 / 2"
    using assms(5-8) by simp_all
  show "coversCanvas (destStart (getKenBurnsTransforms iw ih cw ch r1 r2 r3)) cw ch"
    using offset_bounds(1,2) [OF w1 px] offset_bounds(1,2) [OF h1 py]
    by (simp add: getKenBurnsTransforms_def Let_def coversCanvas_def s_def z_def)
  show "coversCanvas (destEnd (getKenBurnsTransforms iw ih cw ch r1 r2 r3)) cw ch"
    using offset_bounds(3,4) [OF w2 px] offset_bounds(3,4) [OF h2 py]
    by (simp add: getKenBurnsTransforms_def Let_def coversCanvas_def s_def z_def)
qed

lemma interpolate_covers:
  assumes "coversCanvas (destStart tr) cw ch" "coversCanvas (destEnd tr) cw ch"
    and "0 \<le> t" "t \<le> 1"
  shows "coversCanvas (interpolateDest tr t) cw ch"
proof -
  let ?a = "destStart tr" and ?b = "destEnd tr"
  have 1: "0 \<le> (- dx ?a) + ((- dx ?b) - (- dx ?a)) * t"
    using assms by (intro convex_nonneg) (simp_all add: coversCanvas_def)
  have 2: "0 \<le> (- dy ?a) + ((- dy ?b) - (- dy ?a)) * t"
    using assms by (intro convex_nonneg) (simp_all add: coversCanvas_def)
  have 3: "0 \<le> (dx ?a + dWidth ?a - cw) + ((dx ?b + dWidth ?b - cw) - (dx ?a + dWidth ?a - cw)) * t"
    using assms by (intro convex_nonneg) (simp_all add: coversCanvas_def)
  have 4: "0 \<le> (dy ?a + dHeight ?a - ch) + ((dy ?b + dHeight ?b - ch) - (dy ?a + dHeight ?a - ch)) * t"
    using assms by (intro convex_nonneg) (simp_all add: coversCanvas_def)
  show ?thesis
    using 1 2 3 4 by (simp add: coversCanvas_def interpolateDest_def algebra_simps)
qed

subsection \<open>Claim C8\<close>



lemma foldl_add_sum:
  "foldl (\<lambda>sum s. sum + f s) a xs = a + sum_list (map f xs)" for a :: real
  by (induction xs arbitrary: a) simp_all

lemma totalOf_sum: "totalOf sceneList = sum_list (map durationSeconds sceneList)"
  by (simp add: totalOf_def foldl_add_sum)

lemma totalOf_scaled:
  "totalOf (map (\<lambda>scene. scene \<lparr> durationSeconds := durationSeconds scene * k \<rparr>) sceneList)
     = totalOf sceneList * k"
  by (induction sceneList) (simp_all add: totalOf_sum algebra_simps)

lemma totalOf_update_last:
  assumes "sceneList \<noteq> []"
  shows "totalOf (sceneList [length sceneList - 1 :=
            (last sceneList) \<lparr> durationSeconds := durationSeconds (last sceneList) + d \<rparr>])
         = totalOf sceneList + d"
proof -
  obtain ys l where "sceneList = ys @ [l]"
    using assms by (metis rev_exhaust)
  then show ?thesis by (simp add: totalOf_sum)
qed

lemma addResidue_total:
  assumes "scaled \<noteq> []"
  shows "\<bar>target - totalOf (addResidue scaled target)\<bar> \<le> 1 / 1000"
  using assms totalOf_update_last [OF assms, of "target - totalOf scaled"]
  by (simp add: addResidue_def Let_def)

lemma addResidue_butlast: "butlast (addResidue scaled target) = butlast scaled"
proof (cases "scaled = []")
  case True
  then show ?thesis by (simp add: addResidue_def)
next
  case False
  then obtain ys l where "scaled = ys @ [l]" by (metis rev_exhaust)
  then show ?thesis by (simp add: addResidue_def Let_def)
qed

lemma addResidue_exact: "totalOf scaled = target \<Longrightarrow> addResidue scaled target = scaled"
  by (simp add: addResidue_def)

lemma scaleScenes_eq:
  assumes "1 / 10 < totalOf sceneList"
  shows "scaleScenes sceneList target =
           map (\<lambda>scene. scene \<lparr> durationSeconds :=
                  durationSeconds scene * (target / totalOf sceneList) \<rparr>) sceneList"
    and "totalOf (scaleScenes sceneList target) = target"
proof -
  let ?m = "map (\<lambda>scene. scene \<lparr> durationSeconds :=
                  durationSeconds scene * (target / totalOf sceneList) \<rparr>) sceneList"
  have "totalOf sceneList \<noteq> 0" using assms by simp
  then have "totalOf sceneList * (target / totalOf sceneList) = target" by simp
  then have tot: "totalOf ?m = target"
    by (simp only: totalOf_scaled)
  have "scaleScenes sceneList target = addResidue ?m target"
    by (simp only: scaleScenes_def Let_def if_P [OF assms])
  then show eq: "scaleScenes sceneList target = ?m"
    by (simp only: addResidue_exact [OF tot])
  show "totalOf (scaleScenes sceneList target) = target"
    by (simp only: eq tot)
qed

subsection \<open>Claim C7\<close>

text \<open>
  Claim C7 says that with an audio track and a positive total of the original durations,
  every scene is rescaled by audio duration / total and the rescaled durations add up to the
  audio duration. A single scene of 0.1 s (the shortest the segmenter produces) with an
  audio track of 5 s refutes it: the guard \<open>totalSrtDuration > 0.1\<close> skips the rescaling, the
  scene keeps its 0.1 s and the total stays 0.1 s.
\<close>

theorem rescale_counterexample:
  "0 < totalOf [sceneOfDuration 1 (1 / 10)]
   \<and> reconcileDurations [sceneOfDuration 1 (1 / 10)] (AudioDecoded 5)
       = Inr (5, [sceneOfDuration 1 (1 / 10)])
   \<and> durationSeconds (sceneOfDuration 1 (1 / 10))
       \<noteq> durationSeconds (sceneOfDuration 1 (1 / 10)) * (5 / totalOf [sceneOfDuration 1 (1 / 10)])
   \<and> totalOf [sceneOfDuration 1 (1 / 10)] \<noteq> 5"
  by (simp add: reconcileDurations_def scaleScenes_def totalOf_def sceneOfDuration_def)

text \<open>
  Claim C7, amended. When the total of the original durations exceeds 0.1 s, the scenes handed
  to the renderer are the original ones with every duration multiplied by the one factor
  audio duration / total (nothing else changes), and their durations add up to the audio
  duration; a positive audio duration is the authoritative total. The residue step, on any
  non-empty list of scaled scenes, leaves all scenes but the last untouched and brings the sum
  within a millisecond of the audio duration (in exact arithmetic there is no residue).
\<close>

theorem rescale_to_audio:
  assumes "1 / 10 < totalOf sceneList"
  shows "length (scaleScenes sceneList audioDuration) = length sceneList
    \<and> (\<forall>i < length sceneList.
          scaleScenes sceneList audioDuration ! i
            = (sceneList ! i) \<lparr> durationSeconds :=
                 durationSeconds (sceneList ! i) * (audioDuration / totalOf sceneList) \<rparr>)
    \<and> totalOf (scaleScenes sceneList audioDuration) = audioDuration
    \<and> (0 < audioDuration \<longrightarrow>
          reconcileDurations sceneList (AudioDecoded audioDuration)
            = Inr (audioDuration, scaleScenes sceneList audioDuration))
    \<and> (scaled \<noteq> [] \<longrightarrow>
          \<bar>audioDuration - totalOf (addResidue scaled audioDuration)\<bar> \<le> 1 / 1000
          \<and> butlast (addResidue scaled audioDuration) = butlast scaled)"
proof -
  have len: "length (scaleScenes sceneList audioDuration) = length sceneList"
    by (simp only: scaleScenes_eq(1) [OF assms] length_map)
  have nth: "\<forall>i < length sceneList.
          scaleScenes sceneList audioDuration ! i
            = (sceneList ! i) \<lparr> durationSeconds :=
                 durationSeconds (sceneList ! i) * (audioDuration / totalOf sceneList) \<rparr>"
    by (simp only: scaleScenes_eq(1) [OF assms] nth_map) simp
  have rec: "0 < audioDuration \<longrightarrow>
          reconcileDurations sceneList (AudioDecoded audioDuration)
            = Inr (audioDuration, scaleScenes sceneList audioDuration)"
    by (simp add: reconcileDurations_def)
  show ?thesis
    using len nth scaleScenes_eq(2) [OF assms, of audioDuration] rec
      addResidue_total [of scaled audioDuration] addResidue_butlast [of scaled audioDuration]
    by blast
qed

text \<open>The amended theorem at scenes of 4 s and 6 s with 5 s of audio: 2 s and 3 s.\<close>

theorem rescale_to_audio_witness:
  "totalOf [sceneOfDuration 1 4, sceneOfDuration 2 6] = 10
   \<and> map durationSeconds (scaleScenes [sceneOfDuration 1 4, sceneOfDuration 2 6] 5) = [2, 3]
   \<and> totalOf (scaleScenes [sceneOfDuration 1 4, sceneOfDuration 2 6] 5) = 5"
proof -
  have t: "totalOf [sceneOfDuration 1 4, sceneOfDuration 2 6] = 10"
    by (simp add: totalOf_def sceneOfDuration_def)
  have h: "1 / 10 < totalOf [sceneOfDuration 1 4, sceneOfDuration 2 6]"
    unfolding t by simp
  have "map durationSeconds (scaleScenes [sceneOfDuration 1 4, sceneOfDuration 2 6] 5) = [2, 3]"
    by (simp add: scaleScenes_def Let_def totalOf_def addResidue_def sceneOfDuration_def)
  then show ?thesis
    using rescale_to_audio [OF h, of 5 "[]"] t by simp
qed

section \<open>Properties of storyboard generation\<close>

lemma filterThrowing_total:
  "\<forall>x \<in> set xs. p x \<noteq> None \<Longrightarrow> \<exists>ys. filterThrowing p xs = Some ys"
  by (induction xs) (auto split: option.splits)

lemma description_total:
  assumes "key \<noteq> []" and "\<forall>c \<in> set infos. regExpTest env (name c) narr \<noteq> None"
  shows "generateVisualDescriptionForScene env i narr infos key =
           Inr (case descriptionReply env i of
                  DescriptionThrows \<Rightarrow> fallbackDescription narr
                | DescriptionText None \<Rightarrow> fallbackDescription narr
                | DescriptionText (Some txt) \<Rightarrow>
                    if trim txt = [] then fallbackDescription narr else trim txt)"
proof -
  let ?p = "\<lambda>c. case regExpTest env (name c) narr of
                   None \<Rightarrow> None
                 | Some b \<Rightarrow> Some (b \<and> truthy (characteristic c))"
  have "\<forall>c \<in> set infos. ?p c \<noteq> None"
  proof
    fix c assume "c \<in> set infos"
    then have "regExpTest env (name c) narr \<noteq> None" using assms(2) by simp
    then show "?p c \<noteq> None" by (cases "regExpTest env (name c) narr") simp_all
  qed
  from filterThrowing_total [OF this]
  obtain ys where ys: "filterThrowing ?p infos = Some ys" ..
  have key: "getAiClient key = Inr ()"
    using assms(1) by (simp add: getAiClient_def)
  show ?thesis
  proof (cases "descriptionReply env i")
    case DescriptionThrows
    then show ?thesis
      unfolding generateVisualDescriptionForScene_def key ys by simp
  next
    case (DescriptionText t)
    then show ?thesis
      unfolding generateVisualDescriptionForScene_def key ys by (cases t) simp_all
  qed
qed

lemma completeScene_fields [simp]:
  "sceneNumber (completeScene s d u) = sceneNumber s"
  "narration (completeScene s d u) = narration s"
  "duration (completeScene s d u) = duration s"
  "durationSeconds (completeScene s d u) = durationSeconds s"
  "visualDescription (completeScene s d u) = d"
  "imageUrl (completeScene s d u) = u"
  by (simp_all add: completeScene_def)

lemma enrichLoop_step:
  assumes "generateVisualDescriptionForScene env i (narration scene)
             (allCharactersInfo args) (apiKey args) = Inr d"
  shows "enrichLoop env args i (scene # rest) acc =
           enrichLoop env args (i + 1) rest
             (acc @ [completeScene scene d
                       (case generateImageForScene env i d (characterReferences args)
                               (allCharactersInfo args) (imageStyle args)
                               (restrictionPrompt args) (apiKey args) of
                          Inr url \<Rightarrow> url
                        | Inl e \<Rightarrow> PLACEHOLDER_IMAGE_URL)])"
  by (cases "generateImageForScene env i d (characterReferences args)
               (allCharactersInfo args) (imageStyle args) (restrictionPrompt args) (apiKey args)")
     (simp_all add: assms)

lemma enrichLoop_abort:
  assumes "generateVisualDescriptionForScene env i (narration scene)
             (allCharactersInfo args) (apiKey args) = Inl e"
  shows "enrichLoop env args i (scene # rest) acc = Inl e"
  by (simp add: assms)

lemma enrichLoop_total:
  assumes "apiKey args \<noteq> []"
    and "\<forall>c \<in> set (allCharactersInfo args). \<forall>s. regExpTest env (name c) s \<noteq> None"
  shows "\<exists>out. enrichLoop env args i sceneList acc = Inr out"
proof (induction sceneList arbitrary: i acc)
  case Nil
  show ?case by simp
next
  case (Cons scene rest)
  have "\<forall>c \<in> set (allCharactersInfo args). regExpTest env (name c) (narration scene) \<noteq> None"
    using assms(2) by simp
  note d = description_total [OF assms(1) this, of i]
  show ?case
    unfolding enrichLoop_step [OF d] by (rule Cons.IH)
qed

lemma enrichLoop_result:
  assumes "enrichLoop env args i sceneList acc = Inr out"
  shows "length out = length acc + length sceneList
    \<and> (\<forall>k < length acc. out ! k = acc ! k)
    \<and> (\<forall>k < length sceneList.
          generateVisualDescriptionForScene env (i + k) (narration (sceneList ! k))
              (allCharactersInfo args) (apiKey args)
            = Inr (visualDescription (out ! (length acc + k)))
          \<and> out ! (length acc + k) =
              completeScene (sceneList ! k) (visualDescription (out ! (length acc + k)))
                (case generateImageForScene env (i + k)
                        (visualDescription (out ! (length acc + k)))
                        (characterReferences args) (allCharactersInfo args) (imageStyle args)
                        (restrictionPrompt args) (apiKey args) of
                   Inr url \<Rightarrow> url
                 | Inl e \<Rightarrow> PLACEHOLDER_IMAGE_URL))"
  using assms
proof (induction sceneList arbitrary: i acc)
  case Nil
  then show ?case by simp
next
  case (Cons scene rest)
  obtain d where
    d: "generateVisualDescriptionForScene env i (narration scene)
          (allCharactersInfo args) (apiKey args) = Inr d"
  proof (cases "generateVisualDescriptionForScene env i (narration scene)
          (allCharactersInfo args) (apiKey args)")
    case (Inl e)
    then show ?thesis using Cons.prems enrichLoop_abort [OF Inl] by simp
  next
    case (Inr d)
    then show ?thesis using that by simp
  qed
  define u where "u = (case generateImageForScene env i d (characterReferences args)
                        (allCharactersInfo args) (imageStyle args) (restrictionPrompt args)
                        (apiKey args) of Inr url \<Rightarrow> url | Inl e \<Rightarrow> PLACEHOLDER_IMAGE_URL)"
  define c where "c = completeScene scene d u"
  have step: "enrichLoop env args (i + 1) rest (acc @ [c]) = Inr out"
    using Cons.prems unfolding enrichLoop_step [OF d] c_def u_def .
  note ih = Cons.IH [OF step]
  have len: "length out = length acc + length (scene # rest)"
    using ih by simp
  have pre: "\<forall>k < length (acc @ [c]). out ! k = (acc @ [c]) ! k"
    using ih by blast
  have pre1: "\<forall>k < length acc. out ! k = acc ! k"
  proof (intro allI impI)
    fix k assume k: "k < length acc"
    then have "out ! k = (acc @ [c]) ! k" using pre by simp
    then show "out ! k = acc ! k" using k by (simp add: nth_append)
  qed
  have at: "out ! length acc = c"
    using pre by (simp add: nth_append)
  have rest: "\<forall>k < length rest.
          generateVisualDescriptionForScene env (i + 1 + k) (narration (rest ! k))
              (allCharactersInfo args) (apiKey args)
            = Inr (visualDescription (out ! (length (acc @ [c]) + k)))
          \<and> out ! (length (acc @ [c]) + k) =
              completeScene (rest ! k) (visualDescription (out ! (length (acc @ [c]) + k)))
                (case generateImageForScene env (i + 1 + k)
                        (visualDescription (out ! (length (acc @ [c]) + k)))
                        (characterReferences args) (allCharactersInfo args) (imageStyle args)
                        (restrictionPrompt args) (apiKey args) of
                   Inr url \<Rightarrow> url
                 | Inl e \<Rightarrow> PLACEHOLDER_IMAGE_URL)"
    using ih by blast
  have post: "generateVisualDescriptionForScene env (i + k) (narration ((scene # rest) ! k))
              (allCharactersInfo args) (apiKey args)
            = Inr (visualDescription (out ! (length acc + k)))
          \<and> out ! (length acc + k) =
              completeScene ((scene # rest) ! k) (visualDescription (out ! (length acc + k)))
                (case generateImageForScene env (i + k)
                        (visualDescription (out ! (length acc + k)))
                        (characterReferences args) (allCharactersInfo args) (imageStyle args)
                        (restrictionPrompt args) (apiKey args) of
                   Inr url \<Rightarrow> url
                 | Inl e \<Rightarrow> PLACEHOLDER_IMAGE_URL)"
    if "k < length (scene # rest)" for k
  proof (cases k)
    case 0
    then show ?thesis using at d by (simp add: c_def u_def)
  next
    case (Suc j)
    with that have j: "j < length rest" by simp
    show ?thesis
      using rest [rule_format, OF j] by (simp add: Suc)
  qed
  show ?case using len pre1 post by blast
qed

lemma generateStoryboard_main:
  assumes "\<not> mockMode env" and "segmentedScenes env args = Inr seg" and "seg \<noteq> []"
  shows "generateStoryboard env args = enrichLoop env args 0 seg []"
proof (cases "isSrt args")
  case True
  then show ?thesis
    using assms by (simp add: generateStoryboard_def segmentedScenes_def)
next
  case False
  then show ?thesis
    using assms by (simp add: generateStoryboard_def segmentedScenes_def)
qed

subsection \<open>Claim C9\<close>


lemma twoCuesWithPause_scenes:
  "parseAndGroupSrt twoCuesWithPause 10 =
     [\<lparr> sceneNumber = 1, narration = ''one two three four'', duration = ''4 segundos'',
        durationSeconds = 4, visualDescription = [] \<rparr>,
      \<lparr> sceneNumber = 2, narration = ''five six seven eight'', duration = ''2 segundos'',
        durationSeconds = 2, visualDescription = [] \<rparr>]"
  by (simp add: twoCuesWithPause_def parseAndGroupSrt_def parseTimedLines_def parseBlock_def
        trim_def isSpace_def isDigit_def matchTimeLineAt_def parseSrtTimestamp_def parseInt_def
        digitValue_def List.map_filter_def Let_def groupTimedLines_def wordCount_def
        MAX_PAUSE_SECONDS_def finalizeGroups_def enumerate_simps groupToScene_def
        rawDuration_def mathRound_def durationLabel_def numberToString.simps)



lemma buildMockScenes_result:
  assumes "buildMockScenes content srt pace = Inr out"
  shows "\<exists>seg. seg = (if srt then parseAndGroupSrt content pace
                        else splitScriptIntoMockScenes content)
     \<and> seg \<noteq> [] \<and> length out = length seg
     \<and> (\<forall>i < length seg.
           sceneNumber (out ! i) = sceneNumber (seg ! i)
           \<and> narration (out ! i) = narration (seg ! i)
           \<and> duration (out ! i) = duration (seg ! i)
           \<and> durationSeconds (out ! i) = durationSeconds (seg ! i))"
proof -
  define seg where "seg = (if srt then parseAndGroupSrt content pace
                           else splitScriptIntoMockScenes content)"
  have ne: "seg \<noteq> []"
    using assms by (auto simp: buildMockScenes_def Let_def seg_def split: if_splits)
  have out: "out = map (\<lambda>(index, scene).
                          completeScene scene
                            (if visualDescription scene \<noteq> [] then visualDescription scene
                             else ''Mock visual da cena '' @ numberToString (index + 1))
                            MOCK_IMAGE_URL)
                       (List.enumerate 0 seg)"
    using assms ne by (simp add: buildMockScenes_def Let_def seg_def split: if_splits)
  have "length out = length seg" by (simp add: out)
  moreover have "\<forall>i < length seg.
           sceneNumber (out ! i) = sceneNumber (seg ! i)
           \<and> narration (out ! i) = narration (seg ! i)
           \<and> duration (out ! i) = duration (seg ! i)
           \<and> durationSeconds (out ! i) = durationSeconds (seg ! i)"
    by (simp add: out nth_enumerate_eq)
  ultimately show ?thesis using ne seg_def by blast
qed

subsection \<open>Claim C10\<close>


lemma mockScript_scenes:
  "splitScriptIntoMockScenes ''Cena um. Cena dois.'' =
     [\<lparr> sceneNumber = 1, narration = ''Cena um.'', duration = ''2 segundos'',
        durationSeconds = 2, visualDescription = ''Mock visual da cena 1: Cena um.'' \<rparr>,
      \<lparr> sceneNumber = 2, narration = ''Cena dois.'', duration = ''2 segundos'',
        durationSeconds = 2, visualDescription = ''Mock visual da cena 2: Cena dois.'' \<rparr>]"
  by (simp add: splitScriptIntoMockScenes_def Let_def trim_def isSpace_def enumerate_simps
        numberToString.simps)


section \<open>Properties of the job orchestrator\<close>

lemma broadcastLoop_unfold:
  "broadcastLoop (client # rest) event st =
     (if canWrite st client
      then (client # fst (broadcastLoop rest event (st(client \<mapsto> afterWrite event (the (st client))))),
            snd (broadcastLoop rest event (st(client \<mapsto> afterWrite event (the (st client))))))
      else broadcastLoop rest event st)"
  by (cases "st client")
     (auto simp: canWrite_def writeSseEvent_def afterWrite_def split_def Let_def)

lemma broadcastLoop_kept:
  "distinct cs \<Longrightarrow> fst (broadcastLoop cs event st) = filter (canWrite st) cs"
proof (induction cs arbitrary: st)
  case Nil
  show ?case by simp
next
  case (Cons client rest)
  then have d: "distinct rest" and n: "client \<notin> set rest" by simp_all
  have f: "filter (canWrite (st(client \<mapsto> x))) rest = filter (canWrite st) rest" for x
  proof (rule filter_cong [OF refl])
    fix c assume "c \<in> set rest"
    then have "c \<noteq> client" using n by auto
    then show "canWrite (st(client \<mapsto> x)) c = canWrite st c"
      by (simp add: canWrite_def)
  qed
  show ?case
  proof (cases "canWrite st client")
    case True
    then show ?thesis
      by (simp only: broadcastLoop_unfold if_True fst_conv Cons.IH [OF d] f filter.simps)
  next
    case False
    then show ?thesis
      by (simp only: broadcastLoop_unfold if_False Cons.IH [OF d] filter.simps)
  qed
qed

lemma broadcastLoop_streams:
  "distinct cs \<Longrightarrow>
   snd (broadcastLoop cs event st) c =
     (if c \<in> set cs then map_option (afterWrite event) (st c) else st c)"
proof (induction cs arbitrary: st)
  case Nil
  show ?case by simp
next
  case (Cons client rest)
  then have d: "distinct rest" and n: "client \<notin> set rest" by simp_all
  show ?case
  proof (cases "canWrite st client")
    case True
    then obtain raw where raw: "st client = Some raw"
      by (auto simp: canWrite_def split: option.splits)
    show ?thesis
      unfolding broadcastLoop_unfold using True n raw by (simp add: Cons.IH [OF d])
  next
    case False
    then have "map_option (afterWrite event) (st client) = st client"
      by (cases "st client") (auto simp: canWrite_def afterWrite_def)
    then show ?thesis
      unfolding broadcastLoop_unfold using False n by (auto simp: Cons.IH [OF d])
  qed
qed

lemma endClients_streams:
  "endClients cs st c =
     (if c \<in> set cs then map_option (\<lambda>raw. raw \<lparr> ended := True \<rparr>) (st c) else st c)"
proof (induction cs arbitrary: st)
  case Nil
  show ?case by simp
next
  case (Cons client rest)
  show ?case
  proof (cases "st client")
    case None
    then show ?thesis by (auto simp: Cons.IH)
  next
    case (Some raw)
    then show ?thesis by (auto simp: Cons.IH)
  qed
qed

lemma notifyJobProgress_job:
  "distinct (clients job) \<Longrightarrow>
   fst (notifyJobProgress job msg now st) =
     job \<lparr> message := msg, updatedAt := now, clients := filter (canWrite st) (clients job) \<rparr>"
  by (simp add: notifyJobProgress_def broadcastJobEvent_def Let_def split_def broadcastLoop_kept)

lemma notifyJobProgress_streams:
  "distinct (clients job) \<Longrightarrow>
   snd (notifyJobProgress job msg now st) c =
     (if c \<in> set (clients job)
      then map_option (afterWrite (ProgressEvent None (status job) msg now)) (st c)
      else st c)"
  by (simp add: notifyJobProgress_def broadcastJobEvent_def Let_def split_def
        broadcastLoop_streams)

lemma finish_streams_aux:
  assumes "distinct cs"
  shows "endClients (fst (broadcastLoop cs event st)) (snd (broadcastLoop cs event st)) c =
     (if c \<in> set cs then map_option (afterTerminal event) (st c) else st c)"
proof (cases "c \<in> set cs")
  case False
  then show ?thesis
    by (simp add: endClients_streams broadcastLoop_kept [OF assms]
          broadcastLoop_streams [OF assms])
next
  case True
  show ?thesis
  proof (cases "st c")
    case None
    then show ?thesis
      using True
      by (simp add: endClients_streams broadcastLoop_kept [OF assms]
            broadcastLoop_streams [OF assms])
  next
    case (Some raw)
    then show ?thesis
      using True
      by (simp add: endClients_streams broadcastLoop_kept [OF assms]
            broadcastLoop_streams [OF assms] canWrite_def afterWrite_def afterTerminal_def)
  qed
qed

lemma finishJobSuccess_job:
  "fst (finishJobSuccess job sc now st) =
     job \<lparr> status := Completed, message := ''Storyboard completo!'', updatedAt := now,
           scenes := Some sc, clients := [] \<rparr>"
  by (simp add: finishJobSuccess_def broadcastJobEvent_def Let_def split_def)

lemma finishJobSuccess_streams:
  "distinct (clients job) \<Longrightarrow>
   snd (finishJobSuccess job sc now st) c =
     (if c \<in> set (clients job)
      then map_option (afterTerminal
             (CompletedEvent (projectId job) Completed ''Storyboard completo!'' now (length sc)))
             (st c)
      else st c)"
  by (simp add: finishJobSuccess_def broadcastJobEvent_def Let_def split_def finish_streams_aux)

lemma finishJobFailure_job:
  "fst (finishJobFailure job err now st) =
     job \<lparr> status := Failed, message := err, updatedAt := now, error := Some err,
           clients := [] \<rparr>"
  by (simp add: finishJobFailure_def broadcastJobEvent_def Let_def split_def)

lemma finishJobFailure_streams:
  "distinct (clients job) \<Longrightarrow>
   snd (finishJobFailure job err now st) c =
     (if c \<in> set (clients job)
      then map_option (afterTerminal
             (FailedEvent (projectId job) Failed err (Some err) now)) (st c)
      else st c)"
  by (simp add: finishJobFailure_def broadcastJobEvent_def Let_def split_def finish_streams_aux)

lemma failureMessage_nonempty: "failureMessage err \<noteq> []"
  by (simp add: failureMessage_def split: option.splits)

lemma serverOkI:
  assumes "\<And>jid job. jobObjects s jid = Some job \<Longrightarrow> jobOk s jid job"
    and "\<And>jid. jid \<in> storyboardJobs s \<Longrightarrow> jobObjects s jid \<noteq> None"
    and "\<And>c raw. streams s c = Some raw \<Longrightarrow>
           \<exists>job. jobObjects s (streamJob raw) = Some job \<and> streamOk c raw job"
  shows "serverOk s"
  using assms unfolding serverOk_def by blast

lemma serverOk_job: "serverOk s \<Longrightarrow> jobObjects s jid = Some job \<Longrightarrow> jobOk s jid job"
  unfolding serverOk_def by blast

lemma serverOk_registry: "serverOk s \<Longrightarrow> jid \<in> storyboardJobs s \<Longrightarrow> jobObjects s jid \<noteq> None"
  unfolding serverOk_def by blast

lemma serverOk_stream:
  "serverOk s \<Longrightarrow> streams s c = Some raw \<Longrightarrow>
     \<exists>job. jobObjects s (streamJob raw) = Some job \<and> streamOk c raw job"
  unfolding serverOk_def by blast

lemma serverOk_initial: "serverOk initialServer"
  by (simp add: serverOk_def initialServer_def)

lemma step_Tick: "serverOk s \<Longrightarrow> serverOk (step (Tick d) s)"
  by (simp add: serverOk_def jobOk_def step_def)

lemma step_StreamBreaks:
  assumes "serverOk s"
  shows "serverOk (step (StreamBreaks client) s)"
proof (cases "streams s client")
  case None
  then show ?thesis using assms by (simp add: step_def)
next
  case (Some raw0)
  let ?s' = "s \<lparr> streams := (streams s)(client \<mapsto> raw0 \<lparr> writeFails := True \<rparr>) \<rparr>"
  have eq: "step (StreamBreaks client) s = ?s'"
    using Some by (simp add: step_def)
  show ?thesis
    unfolding eq
  proof (rule serverOkI)
    fix jid job assume "jobObjects ?s' jid = Some job"
    then have "jobOk s jid job" using serverOk_job [OF assms] by simp
    then show "jobOk ?s' jid job"
      using Some by (auto simp: jobOk_def)
  next
    fix jid assume "jid \<in> storyboardJobs ?s'"
    then show "jobObjects ?s' jid \<noteq> None" using serverOk_registry [OF assms] by simp
  next
    fix c raw assume a: "streams ?s' c = Some raw"
    show "\<exists>job. jobObjects ?s' (streamJob raw) = Some job \<and> streamOk c raw job"
    proof (cases "c = client")
      case True
      then have raw: "raw = raw0 \<lparr> writeFails := True \<rparr>" using a by simp
      obtain job where "jobObjects s (streamJob raw0) = Some job" "streamOk client raw0 job"
        using serverOk_stream [OF assms Some] by blast
      then show ?thesis
        using True by (auto simp: raw streamOk_def split: if_splits)
    next
      case False
      then have "streams s c = Some raw" using a by simp
      then show ?thesis using serverOk_stream [OF assms] by simp
    qed
  qed
qed

lemma streamOk_cong:
  assumes "status job' = status job" "clients job' = clients job"
    "projectId job' = projectId job" "message job' = message job"
    "updatedAt job' = updatedAt job" "scenes job' = scenes job" "error job' = error job"
  shows "streamOk c raw job' = streamOk c raw job"
proof -
  have "terminalFor job' e = terminalFor job e" for e
    using assms by (cases e) simp_all
  then show ?thesis using assms by (simp add: streamOk_def)
qed

lemma step_PersistenceSettles:
  assumes "serverOk s"
  shows "serverOk (step (PersistenceSettles jid0) s)"
proof (cases "tasks s jid0 = Some Persisting \<and> jobObjects s jid0 \<noteq> None")
  case False
  then have "step (PersistenceSettles jid0) s = s"
    by (auto simp: step_def split: option.splits taskPhase.splits)
  then show ?thesis using assms by simp
next
  case True
  then obtain job0 where t: "tasks s jid0 = Some Persisting" and j: "jobObjects s jid0 = Some job0"
    by auto
  let ?job' = "scheduleJobCleanup job0 (clock s)"
  let ?s' = "s \<lparr> jobObjects := (jobObjects s)(jid0 \<mapsto> ?job'), tasks := (tasks s)(jid0 \<mapsto> Done) \<rparr>"
  have eq: "step (PersistenceSettles jid0) s = ?s'"
    using t j by (simp add: step_def)
  note ok0 = serverOk_job [OF assms j]
  show ?thesis
    unfolding eq
  proof (rule serverOkI)
    fix jid job assume a: "jobObjects ?s' jid = Some job"
    show "jobOk ?s' jid job"
    proof (cases "jid = jid0")
      case True
      then have "job = ?job'" using a by simp
      then show ?thesis
        using ok0 t True by (auto simp: jobOk_def scheduleJobCleanup_def)
    next
      case False
      then have "jobObjects s jid = Some job" using a by simp
      then have "jobOk s jid job" using serverOk_job [OF assms] by simp
      then show ?thesis using False by (auto simp: jobOk_def)
    qed
  next
    fix jid assume "jid \<in> storyboardJobs ?s'"
    then show "jobObjects ?s' jid \<noteq> None" using serverOk_registry [OF assms] by simp
  next
    fix c raw assume "streams ?s' c = Some raw"
    then have "streams s c = Some raw" by simp
    then obtain job where job: "jobObjects s (streamJob raw) = Some job" "streamOk c raw job"
      using serverOk_stream [OF assms] by blast
    show "\<exists>job. jobObjects ?s' (streamJob raw) = Some job \<and> streamOk c raw job"
    proof (cases "streamJob raw = jid0")
      case True
      then have "job = job0" using job j by simp
      moreover have "streamOk c raw ?job' = streamOk c raw job0"
        by (rule streamOk_cong) (simp_all add: scheduleJobCleanup_def)
      ultimately show ?thesis using True job by simp
    next
      case False
      then show ?thesis using job by simp
    qed
  qed
qed

lemma step_CleanupTimerFires:
  assumes "serverOk s"
  shows "serverOk (step (CleanupTimerFires jid0) s)"
proof (cases "\<exists>job due. jobObjects s jid0 = Some job \<and> cleanupTimer job = Some due \<and> due \<le> clock s")
  case False
  then have "step (CleanupTimerFires jid0) s = s"
    by (auto simp: step_def split: option.splits)
  then show ?thesis using assms by simp
next
  case True
  then obtain job0 due where j: "jobObjects s jid0 = Some job0"
    and d: "cleanupTimer job0 = Some due" "due \<le> clock s"
    by auto
  note ok0 = serverOk_job [OF assms j]
  have id0: "jobId job0 = jid0" using ok0 by (simp add: jobOk_def)
  have tdone: "tasks s jid0 = Some Done" using ok0 d by (simp add: jobOk_def)
  let ?job' = "job0 \<lparr> cleanupTimer := None \<rparr>"
  let ?s' = "s \<lparr> storyboardJobs := storyboardJobs s - {jid0},
                 jobObjects := (jobObjects s)(jid0 \<mapsto> ?job') \<rparr>"
  have eq: "step (CleanupTimerFires jid0) s = ?s'"
    using j d id0 by (simp add: step_def)
  show ?thesis
    unfolding eq
  proof (rule serverOkI)
    fix jid job assume a: "jobObjects ?s' jid = Some job"
    show "jobOk ?s' jid job"
    proof (cases "jid = jid0")
      case True
      then have "job = ?job'" using a by simp
      then show ?thesis
        using ok0 tdone True by (auto simp: jobOk_def)
    next
      case False
      then have "jobObjects s jid = Some job" using a by simp
      then have "jobOk s jid job" using serverOk_job [OF assms] by simp
      then show ?thesis using False by (auto simp: jobOk_def)
    qed
  next
    fix jid assume "jid \<in> storyboardJobs ?s'"
    then show "jobObjects ?s' jid \<noteq> None" using serverOk_registry [OF assms] by simp
  next
    fix c raw assume "streams ?s' c = Some raw"
    then have "streams s c = Some raw" by simp
    then obtain job where job: "jobObjects s (streamJob raw) = Some job" "streamOk c raw job"
      using serverOk_stream [OF assms] by blast
    show "\<exists>job. jobObjects ?s' (streamJob raw) = Some job \<and> streamOk c raw job"
    proof (cases "streamJob raw = jid0")
      case True
      then have "job = job0" using job j by simp
      moreover have "streamOk c raw ?job' = streamOk c raw job0"
        by (rule streamOk_cong) simp_all
      ultimately show ?thesis using True job by simp
    next
      case False
      then show ?thesis using job by simp
    qed
  qed
qed

lemma step_StartJob:
  assumes "serverOk s"
  shows "serverOk (step (StartJob jid0 uid pid) s)"
proof (cases "jobObjects s jid0")
  case (Some job)
  then show ?thesis using assms by (simp add: step_def)
next
  case None
  define job' where "job' =
     \<lparr> jobId = jid0, userId = uid, projectId = pid, status = Running,
       message = ''Preparando gera'' @ [CHR 0xE7, CHR 0xE3] @ ''o do storyboard...'',
       createdAt = clock s, updatedAt = clock s, scenes = None,
       error = None, clients = [], cleanupTimer = None \<rparr>"
  let ?s' = "s \<lparr> jobObjects := (jobObjects s)(jid0 \<mapsto> job'),
                 storyboardJobs := insert jid0 (storyboardJobs s),
                 tasks := (tasks s)(jid0 \<mapsto> Generating) \<rparr>"
  have eq: "step (StartJob jid0 uid pid) s = ?s'"
    using None
    by (simp add: step_def notifyJobProgress_def broadcastJobEvent_def Let_def job'_def)
  show ?thesis
    unfolding eq
  proof (rule serverOkI)
    fix jid job assume a: "jobObjects ?s' jid = Some job"
    show "jobOk ?s' jid job"
    proof (cases "jid = jid0")
      case True
      then have "job = job'" using a by simp
      then show ?thesis
        using True by (simp add: jobOk_def job'_def)
    next
      case False
      then have "jobObjects s jid = Some job" using a by simp
      then have "jobOk s jid job" using serverOk_job [OF assms] by simp
      then show ?thesis using False by (auto simp: jobOk_def)
    qed
  next
    fix jid assume "jid \<in> storyboardJobs ?s'"
    then show "jobObjects ?s' jid \<noteq> None" using serverOk_registry [OF assms] by auto
  next
    fix c raw assume "streams ?s' c = Some raw"
    then have "streams s c = Some raw" by simp
    then obtain job where job: "jobObjects s (streamJob raw) = Some job" "streamOk c raw job"
      using serverOk_stream [OF assms] by blast
    then have "streamJob raw \<noteq> jid0" using None by auto
    then show "\<exists>job. jobObjects ?s' (streamJob raw) = Some job \<and> streamOk c raw job"
      using job by simp
  qed
qed

lemma streamOk_cong_member:
  assumes "status job' = status job"
    "(c \<in> set (clients job')) = (c \<in> set (clients job))"
    "projectId job' = projectId job" "message job' = message job"
    "updatedAt job' = updatedAt job" "scenes job' = scenes job" "error job' = error job"
  shows "streamOk c raw job' = streamOk c raw job"
proof -
  have "terminalFor job' e = terminalFor job e" for e
    using assms by (cases e) simp_all
  then show ?thesis using assms by (simp add: streamOk_def)
qed

lemma step_PeerCloses:
  assumes "serverOk s"
  shows "serverOk (step (PeerCloses client) s)"
proof (cases "streams s client")
  case None
  then show ?thesis using assms by (simp add: step_def)
next
  case (Some raw0)
  obtain job0 where j: "jobObjects s (streamJob raw0) = Some job0"
    and ok: "streamOk client raw0 job0"
    using serverOk_stream [OF assms Some] by blast
  note jok = serverOk_job [OF assms j]
  define j0 where "j0 = streamJob raw0"
  define raw' where "raw' = raw0 \<lparr> peerClosed := True \<rparr>"
  define job' where "job' = job0 \<lparr> clients := removeAll client (clients job0) \<rparr>"
  let ?s' = "s \<lparr> streams := (streams s)(client \<mapsto> raw'),
                 jobObjects := (jobObjects s)(j0 \<mapsto> job') \<rparr>"
  have eq: "step (PeerCloses client) s = ?s'"
  proof (cases "hasCloseHandler raw0 \<and> \<not> peerClosed raw0")
    case True
    then show ?thesis
      using Some j by (simp add: step_def Let_def raw'_def job'_def j0_def)
  next
    case False
    then have "client \<notin> set (clients job0)"
      using ok by (auto simp: streamOk_def split: if_splits)
    then have "job' = job0" by (simp add: job'_def)
    then have m: "(jobObjects s)(j0 \<mapsto> job') = jobObjects s"
      using j by (auto simp: j0_def fun_eq_iff)
    have "step (PeerCloses client) s = s \<lparr> streams := (streams s)(client \<mapsto> raw') \<rparr>"
      using Some False by (auto simp: step_def Let_def raw'_def)
    then show ?thesis by (simp add: m)
  qed
  have j': "jobObjects s j0 = Some job0" using j by (simp add: j0_def)
  show ?thesis
    unfolding eq
  proof (rule serverOkI)
    fix jid job assume a: "jobObjects ?s' jid = Some job"
    show "jobOk ?s' jid job"
    proof (cases "jid = j0")
      case True
      then have "job = job'" using a by simp
      then show ?thesis
        using jok True Some by (auto simp: jobOk_def job'_def j0_def raw'_def distinct_removeAll)
    next
      case False
      then have "jobObjects s jid = Some job" using a by simp
      then have "jobOk s jid job" using serverOk_job [OF assms] by simp
      then show ?thesis using False Some by (auto simp: jobOk_def raw'_def)
    qed
  next
    fix jid assume "jid \<in> storyboardJobs ?s'"
    then show "jobObjects ?s' jid \<noteq> None" using serverOk_registry [OF assms] by auto
  next
    fix c raw assume a: "streams ?s' c = Some raw"
    show "\<exists>job. jobObjects ?s' (streamJob raw) = Some job \<and> streamOk c raw job"
    proof (cases "c = client")
      case True
      then have raw: "raw = raw'" using a by simp
      have "streamOk client raw' job'"
      proof -
        have t: "terminalFor job' e = terminalFor job0 e" for e
          by (cases e) (simp_all add: job'_def)
        show ?thesis
          using ok by (auto simp: streamOk_def raw'_def t) (auto simp: job'_def split: if_splits)
      qed
      then show ?thesis using True raw by (simp add: raw'_def j0_def)
    next
      case False
      then have s0: "streams s c = Some raw" using a by simp
      then obtain job where job: "jobObjects s (streamJob raw) = Some job" "streamOk c raw job"
        using serverOk_stream [OF assms] by blast
      show ?thesis
      proof (cases "streamJob raw = j0")
        case True
        then have "job = job0" using job j' by simp
        moreover have "streamOk c raw job' = streamOk c raw job0"
          by (rule streamOk_cong_member) (use False in \<open>simp_all add: job'_def\<close>)
        ultimately show ?thesis using True job by simp
      next
        case False
        then show ?thesis using job by simp
      qed
    qed
  qed
qed

lemma subscribe_cases:
  assumes "streams s client = None"
  shows "step (Subscribe client requestUser jid) s = s
    \<or> (\<exists>u job. requestUser = Some u \<and> jid \<in> storyboardJobs s \<and> jobObjects s jid = Some job
          \<and> canAccessJob u job
          \<and> step (Subscribe client requestUser jid) s =
              (if status job = Completed
               then s \<lparr> streams := (streams s)(client \<mapsto>
                      \<lparr> written = [ProgressEvent (Some (projectId job)) (status job) (message job)
                                    (updatedAt job),
                                  CompletedEvent (projectId job) (status job) (message job)
                                    (updatedAt job)
                                    (case scenes job of None \<Rightarrow> 0 | Some sc \<Rightarrow> length sc)],
                        ended = True, writeFails = False, peerClosed = False,
                        hasCloseHandler = False, streamJob = jid \<rparr>) \<rparr>
               else if status job = Failed
               then s \<lparr> streams := (streams s)(client \<mapsto>
                      \<lparr> written = [ProgressEvent (Some (projectId job)) (status job) (message job)
                                    (updatedAt job),
                                  FailedEvent (projectId job) (status job) (message job)
                                    (error job) (updatedAt job)],
                        ended = True, writeFails = False, peerClosed = False,
                        hasCloseHandler = False, streamJob = jid \<rparr>) \<rparr>
               else s \<lparr> streams := (streams s)(client \<mapsto>
                      \<lparr> written = [ProgressEvent (Some (projectId job)) (status job) (message job)
                                    (updatedAt job)],
                        ended = False, writeFails = False, peerClosed = False,
                        hasCloseHandler = True, streamJob = jid \<rparr>),
                       jobObjects := (jobObjects s)(jid \<mapsto>
                         job \<lparr> clients := (if client \<in> set (clients job) then clients job
                                            else clients job @ [client]) \<rparr>) \<rparr>))"
proof (cases "eventsRefusal s requestUser jid")
  case (Some r)
  then show ?thesis using assms by (simp add: step_def subscribe_def)
next
  case None
  then obtain u where u: "requestUser = Some u"
    by (cases requestUser) (simp_all add: eventsRefusal_def)
  obtain job where l: "lookupJob s jid = Some job"
    using None u by (cases "lookupJob s jid") (simp_all add: eventsRefusal_def)
  have acc: "canAccessJob u job"
    using None u l by (simp add: eventsRefusal_def split: if_splits)
  have reg: "jid \<in> storyboardJobs s" "jobObjects s jid = Some job"
    using l by (simp_all add: lookupJob_def split: if_splits)
  have "step (Subscribe client requestUser jid) s = subscribe client requestUser jid s"
    using assms by (simp add: step_def)
  then show ?thesis
    using None u l acc reg by (auto simp: subscribe_def Let_def)
qed

lemma step_Subscribe:
  assumes "serverOk s"
  shows "serverOk (step (Subscribe client requestUser jid0) s)"
proof (cases "streams s client")
  case (Some raw)
  then show ?thesis using assms by (simp add: step_def)
next
  case None
  note fresh = None
  from subscribe_cases [OF None, of requestUser jid0]
  show ?thesis
  proof (elim disjE exE conjE)
    assume "step (Subscribe client requestUser jid0) s = s"
    then show ?thesis using assms by simp
  next
    fix u job0
    assume j: "jobObjects s jid0 = Some job0" and reg: "jid0 \<in> storyboardJobs s"
      and eq: "step (Subscribe client requestUser jid0) s =
              (if status job0 = Completed
               then s \<lparr> streams := (streams s)(client \<mapsto>
                      \<lparr> written = [ProgressEvent (Some (projectId job0)) (status job0) (message job0)
                                    (updatedAt job0),
                                  CompletedEvent (projectId job0) (status job0) (message job0)
                                    (updatedAt job0)
                                    (case scenes job0 of None \<Rightarrow> 0 | Some sc \<Rightarrow> length sc)],
                        ended = True, writeFails = False, peerClosed = False,
                        hasCloseHandler = False, streamJob = jid0 \<rparr>) \<rparr>
               else if status job0 = Failed
               then s \<lparr> streams := (streams s)(client \<mapsto>
                      \<lparr> written = [ProgressEvent (Some (projectId job0)) (status job0) (message job0)
                                    (updatedAt job0),
                                  FailedEvent (projectId job0) (status job0) (message job0)
                                    (error job0) (updatedAt job0)],
                        ended = True, writeFails = False, peerClosed = False,
                        hasCloseHandler = False, streamJob = jid0 \<rparr>) \<rparr>
               else s \<lparr> streams := (streams s)(client \<mapsto>
                      \<lparr> written = [ProgressEvent (Some (projectId job0)) (status job0) (message job0)
                                    (updatedAt job0)],
                        ended = False, writeFails = False, peerClosed = False,
                        hasCloseHandler = True, streamJob = jid0 \<rparr>),
                       jobObjects := (jobObjects s)(jid0 \<mapsto>
                         job0 \<lparr> clients := (if client \<in> set (clients job0) then clients job0
                                            else clients job0 @ [client]) \<rparr>) \<rparr>)"
    note jok = serverOk_job [OF assms j]
    have notin: "client \<notin> set (clients job0)"
      using jok fresh by (auto simp: jobOk_def)
    have other: "c \<noteq> client" if "jobObjects s jid = Some job" "c \<in> set (clients job)" for c jid job
      using serverOk_job [OF assms that(1)] that(2) fresh by (auto simp: jobOk_def)
    define raw' where "raw' = (the (streams (step (Subscribe client requestUser jid0) s) client))"
    define job' where "job' = (if status job0 = Running
                               then job0 \<lparr> clients := clients job0 @ [client] \<rparr> else job0)"
    let ?s' = "s \<lparr> streams := (streams s)(client \<mapsto> raw'),
                   jobObjects := (jobObjects s)(jid0 \<mapsto> job') \<rparr>"
    have triv: "(jobObjects s)(jid0 \<mapsto> job0) = jobObjects s"
      using j by (auto simp: fun_eq_iff)
    have eq': "step (Subscribe client requestUser jid0) s = ?s'"
      unfolding raw'_def job'_def
      by (cases "status job0") (simp_all add: eq notin triv)
    have rawj: "streamJob raw' = jid0"
      unfolding raw'_def by (cases "status job0") (simp_all add: eq)
    have rawok: "streamOk client raw' job'"
    proof (cases "status job0")
      case Running
      then show ?thesis
        unfolding raw'_def job'_def by (simp add: eq streamOk_def)
    next
      case Completed
      then show ?thesis
        using jok unfolding raw'_def job'_def
        by (auto simp: eq streamOk_def jobOk_def)
    next
      case Failed
      then show ?thesis
        using jok unfolding raw'_def job'_def
        by (auto simp: eq streamOk_def jobOk_def)
    qed
    show ?thesis
      unfolding eq'
    proof (rule serverOkI)
      fix jid job assume a: "jobObjects ?s' jid = Some job"
      show "jobOk ?s' jid job"
      proof (cases "jid = jid0")
        case True
        then have "job = job'" using a by simp
        then show ?thesis
          using jok True notin rawj by (auto simp: jobOk_def job'_def)
      next
        case False
        then have o: "jobObjects s jid = Some job" using a by simp
        then have "jobOk s jid job" using serverOk_job [OF assms] by simp
        then show ?thesis using False other [OF o] by (auto simp: jobOk_def)
      qed
    next
      fix jid assume "jid \<in> storyboardJobs ?s'"
      then show "jobObjects ?s' jid \<noteq> None" using serverOk_registry [OF assms] by auto
    next
      fix c raw assume a: "streams ?s' c = Some raw"
      show "\<exists>job. jobObjects ?s' (streamJob raw) = Some job \<and> streamOk c raw job"
      proof (cases "c = client")
        case True
        then have "raw = raw'" using a by simp
        then show ?thesis using True rawok rawj by simp
      next
        case False
        then have s0: "streams s c = Some raw" using a by simp
        then obtain job where job: "jobObjects s (streamJob raw) = Some job" "streamOk c raw job"
          using serverOk_stream [OF assms] by blast
        show ?thesis
        proof (cases "streamJob raw = jid0")
          case True
          then have "job = job0" using job j by simp
          moreover have "streamOk c raw job' = streamOk c raw job0"
            by (rule streamOk_cong_member) (use False in \<open>simp_all add: job'_def\<close>)
          ultimately show ?thesis using True job by simp
        next
          case False
          then show ?thesis using job by simp
        qed
      qed
    qed
  qed
qed

lemma task_step_idle:
  assumes "\<not> (tasks s jid0 = Some Generating \<and> jobObjects s jid0 \<noteq> None)"
  shows "step (NotifyProgress jid0 msg) s = s"
    and "step (GenerationReturns jid0 sc) s = s"
    and "step (GenerationThrows jid0 err) s = s"
  using assms by (auto simp: step_def split: option.splits taskPhase.splits)

lemma step_NotifyProgress:
  assumes "serverOk s"
  shows "serverOk (step (NotifyProgress jid0 msg) s)"
proof (cases "tasks s jid0 = Some Generating \<and> jobObjects s jid0 \<noteq> None")
  case False
  then show ?thesis using assms task_step_idle(1) by simp
next
  case True
  then obtain job0 where t: "tasks s jid0 = Some Generating" and j: "jobObjects s jid0 = Some job0"
    by auto
  note jok = serverOk_job [OF assms j]
  have dist: "distinct (clients job0)" and run: "status job0 = Running"
    using jok t by (simp_all add: jobOk_def)
  define event where "event = ProgressEvent None (status job0) msg (clock s)"
  define job' where "job' = job0 \<lparr> message := msg, updatedAt := clock s,
                                   clients := filter (canWrite (streams s)) (clients job0) \<rparr>"
  define st' where "st' = snd (notifyJobProgress job0 msg (clock s) (streams s))"
  let ?s' = "s \<lparr> jobObjects := (jobObjects s)(jid0 \<mapsto> job'), streams := st' \<rparr>"
  have eq: "step (NotifyProgress jid0 msg) s = ?s'"
    using t j by (simp add: step_def split_def job'_def st'_def notifyJobProgress_job [OF dist])
  have st: "st' c = (if c \<in> set (clients job0) then map_option (afterWrite event) (streams s c)
                     else streams s c)" for c
    by (simp add: st'_def event_def notifyJobProgress_streams [OF dist])
  have own: "\<exists>raw. streams s c = Some raw \<and> streamJob raw = jid0" if "c \<in> set (clients job0)" for c
    using jok that by (auto simp: jobOk_def)
  have keepJob: "\<exists>raw'. st' c = Some raw' \<and> streamJob raw' = streamJob raw"
    if "streams s c = Some raw" for c raw
    using that by (auto simp: st afterWrite_def)
  show ?thesis
    unfolding eq
  proof (rule serverOkI)
    fix jid job assume a: "jobObjects ?s' jid = Some job"
    show "jobOk ?s' jid job"
    proof (cases "jid = jid0")
      case True
      then have jb: "job = job'" using a by simp
      have "\<forall>c \<in> set (clients job'). \<exists>raw. st' c = Some raw \<and> streamJob raw = jid0"
        using own keepJob by (fastforce simp: job'_def)
      then show ?thesis
        using jok True dist by (auto simp: jb jobOk_def job'_def)
    next
      case False
      then have o: "jobObjects s jid = Some job" using a by simp
      then have k: "jobOk s jid job" using serverOk_job [OF assms] by simp
      have "\<forall>c \<in> set (clients job). \<exists>raw. st' c = Some raw \<and> streamJob raw = jid"
        using k keepJob by (fastforce simp: jobOk_def)
      then show ?thesis using k False by (auto simp: jobOk_def)
    qed
  next
    fix jid assume "jid \<in> storyboardJobs ?s'"
    then show "jobObjects ?s' jid \<noteq> None" using serverOk_registry [OF assms] by auto
  next
    fix c raw assume a: "streams ?s' c = Some raw"
    then have a': "st' c = Some raw" by simp
    show "\<exists>job. jobObjects ?s' (streamJob raw) = Some job \<and> streamOk c raw job"
    proof (cases "c \<in> set (clients job0)")
      case True
      then obtain raw1 where r1: "streams s c = Some raw1" "streamJob raw1 = jid0"
        using own by blast
      have raw: "raw = afterWrite event raw1" using a' True r1 by (simp add: st)
      have ok1: "streamOk c raw1 job0"
        using serverOk_stream [OF assms r1(1)] r1(2) j by auto
      have sj: "streamJob raw = jid0" by (simp add: raw afterWrite_def r1(2))
      have "streamOk c raw job'"
        using ok1 True run r1(1)
        by (auto simp: raw streamOk_def afterWrite_def job'_def canWrite_def event_def)
      then show ?thesis using sj by simp
    next
      case False
      then have s0: "streams s c = Some raw" using a' by (simp add: st)
      then obtain job where job: "jobObjects s (streamJob raw) = Some job" "streamOk c raw job"
        using serverOk_stream [OF assms] by blast
      show ?thesis
      proof (cases "streamJob raw = jid0")
        case True
        then have jj: "job = job0" using job j by simp
        have "streamOk c raw job'"
          using job(2) False run by (auto simp: jj streamOk_def job'_def)
        then show ?thesis using True by simp
      next
        case False
        then show ?thesis using job by simp
      qed
    qed
  qed
qed

lemma terminalFor_isTerminal: "terminalFor job e \<Longrightarrow> isTerminalEvent e"
  by (cases e) simp_all

lemma finish_generic:
  assumes ok: "serverOk s"
    and t: "tasks s jid0 = Some Generating"
    and j: "jobObjects s jid0 = Some job0"
    and job': "status job' \<noteq> Running" "clients job' = []" "jobId job' = jobId job0"
      "cleanupTimer job' = cleanupTimer job0"
      "status job' = Completed \<longrightarrow> scenes job' \<noteq> None"
      "status job' = Failed \<longrightarrow> (\<exists>e. error job' = Some e \<and> e \<noteq> [])"
      "terminalFor job' event"
    and st: "\<And>c. st' c = (if c \<in> set (clients job0)
                            then map_option (afterTerminal event) (streams s c)
                            else streams s c)"
  shows "serverOk (s \<lparr> jobObjects := (jobObjects s)(jid0 \<mapsto> job'), streams := st',
                       tasks := (tasks s)(jid0 \<mapsto> Persisting) \<rparr>)"
    (is "serverOk ?s'")
proof (rule serverOkI)
  note jok = serverOk_job [OF ok j]
  have run: "status job0 = Running" using jok t by (simp add: jobOk_def)
  have own: "\<exists>raw. streams s c = Some raw \<and> streamJob raw = jid0" if "c \<in> set (clients job0)" for c
    using jok that by (auto simp: jobOk_def)
  have keepJob: "\<exists>raw'. st' c = Some raw' \<and> streamJob raw' = streamJob raw"
    if "streams s c = Some raw" for c raw
    using that by (auto simp: st afterTerminal_def)
  {
    fix jid job assume a: "jobObjects ?s' jid = Some job"
    show "jobOk ?s' jid job"
    proof (cases "jid = jid0")
      case True
      then have jb: "job = job'" using a by simp
      show ?thesis
        using jok True job' t by (auto simp: jb jobOk_def)
    next
      case False
      then have o: "jobObjects s jid = Some job" using a by simp
      then have k: "jobOk s jid job" using serverOk_job [OF ok] by simp
      have "\<forall>c \<in> set (clients job). \<exists>raw. st' c = Some raw \<and> streamJob raw = jid"
        using k keepJob by (fastforce simp: jobOk_def)
      then show ?thesis using k False by (auto simp: jobOk_def)
    qed
  next
    fix jid assume "jid \<in> storyboardJobs ?s'"
    then show "jobObjects ?s' jid \<noteq> None" using serverOk_registry [OF ok] by auto
  next
    fix c raw assume a: "streams ?s' c = Some raw"
    then have a': "st' c = Some raw" by simp
    show "\<exists>job. jobObjects ?s' (streamJob raw) = Some job \<and> streamOk c raw job"
    proof (cases "c \<in> set (clients job0)")
      case True
      then obtain raw1 where r1: "streams s c = Some raw1" "streamJob raw1 = jid0"
        using own by blast
      have raw: "raw = afterTerminal event raw1" using a' True r1 by (simp add: st)
      have sj: "streamJob raw = jid0" by (simp add: raw afterTerminal_def r1(2))
      have ok1: "streamOk c raw1 job0"
        using serverOk_stream [OF ok r1(1)] r1(2) j by auto
      have ne: "\<not> ended raw1" using ok1 run by (auto simp: streamOk_def)
      have "streamOk c raw job'"
      proof (cases "writeFails raw1")
        case True
        then show ?thesis
          using ok1 ne job'(1,2) by (simp add: raw afterTerminal_def streamOk_def)
      next
        case False
        then show ?thesis
          using ok1 ne job'(1,2,7) by (simp add: raw afterTerminal_def streamOk_def)
      qed
      then show ?thesis using sj by simp
    next
      case False
      then have s0: "streams s c = Some raw" using a' by (simp add: st)
      then obtain job where job: "jobObjects s (streamJob raw) = Some job" "streamOk c raw job"
        using serverOk_stream [OF ok] by blast
      show ?thesis
      proof (cases "streamJob raw = jid0")
        case True
        then have jj: "job = job0" using job j by simp
        have "streamOk c raw job'"
          using job(2) False run job'(1,2) by (auto simp: jj streamOk_def)
        then show ?thesis using True by simp
      next
        case False
        then show ?thesis using job by simp
      qed
    qed
  }
qed

lemma step_GenerationReturns:
  assumes "serverOk s"
  shows "serverOk (step (GenerationReturns jid0 sc) s)"
proof (cases "tasks s jid0 = Some Generating \<and> jobObjects s jid0 \<noteq> None")
  case False
  then show ?thesis using assms task_step_idle(2) by simp
next
  case True
  then obtain job0 where t: "tasks s jid0 = Some Generating" and j: "jobObjects s jid0 = Some job0"
    by auto
  have dist: "distinct (clients job0)"
    using serverOk_job [OF assms j] by (simp add: jobOk_def)
  define job' where "job' = fst (finishJobSuccess job0 sc (clock s) (streams s))"
  define st' where "st' = snd (finishJobSuccess job0 sc (clock s) (streams s))"
  have eq: "step (GenerationReturns jid0 sc) s =
              s \<lparr> jobObjects := (jobObjects s)(jid0 \<mapsto> job'), streams := st',
                  tasks := (tasks s)(jid0 \<mapsto> Persisting) \<rparr>"
    using t j by (simp add: step_def split_def Let_def job'_def st'_def)
  show ?thesis
    unfolding eq
    by (rule finish_generic [OF assms t j, where event =
          "CompletedEvent (projectId job0) Completed ''Storyboard completo!'' (clock s) (length sc)"])
       (simp_all add: job'_def st'_def finishJobSuccess_job finishJobSuccess_streams [OF dist])
qed

lemma step_GenerationThrows:
  assumes "serverOk s"
  shows "serverOk (step (GenerationThrows jid0 err) s)"
proof (cases "tasks s jid0 = Some Generating \<and> jobObjects s jid0 \<noteq> None")
  case False
  then show ?thesis using assms task_step_idle(3) by simp
next
  case True
  then obtain job0 where t: "tasks s jid0 = Some Generating" and j: "jobObjects s jid0 = Some job0"
    by auto
  have dist: "distinct (clients job0)"
    using serverOk_job [OF assms j] by (simp add: jobOk_def)
  define job' where "job' = fst (finishJobFailure job0 (failureMessage err) (clock s) (streams s))"
  define st' where "st' = snd (finishJobFailure job0 (failureMessage err) (clock s) (streams s))"
  have eq: "step (GenerationThrows jid0 err) s =
              s \<lparr> jobObjects := (jobObjects s)(jid0 \<mapsto> job'), streams := st',
                  tasks := (tasks s)(jid0 \<mapsto> Persisting) \<rparr>"
    using t j by (simp add: step_def split_def Let_def job'_def st'_def)
  show ?thesis
    unfolding eq
    by (rule finish_generic [OF assms t j, where event =
          "FailedEvent (projectId job0) Failed (failureMessage err) (Some (failureMessage err))
             (clock s)"])
       (simp_all add: job'_def st'_def finishJobFailure_job finishJobFailure_streams [OF dist]
          failureMessage_nonempty)
qed

lemma step_serverOk: "serverOk s \<Longrightarrow> serverOk (step a s)"
  by (cases a)
     (simp_all only: step_StartJob step_NotifyProgress step_GenerationReturns
        step_GenerationThrows step_PersistenceSettles step_CleanupTimerFires step_Subscribe
        step_PeerCloses step_StreamBreaks step_Tick)

lemma run_serverOk: "serverOk s \<Longrightarrow> serverOk (run s acts)"
  by (induction acts arbitrary: s) (simp_all add: step_serverOk)

lemma reachable_serverOk: "serverOk (run initialServer acts)"
  by (rule run_serverOk [OF serverOk_initial])

lemma step_job:
  assumes ok: "serverOk s" and j: "jobObjects s jid = Some job"
  shows "\<exists>job'. jobObjects (step a s) jid = Some job'
           \<and> userId job' = userId job \<and> projectId job' = projectId job
           \<and> (status job' = status job \<or> status job = Running)
           \<and> (status job \<noteq> Running \<longrightarrow>
                 message job' = message job \<and> updatedAt job' = updatedAt job
                 \<and> scenes job' = scenes job \<and> error job' = error job)"
proof -
  note jok = serverOk_job [OF ok j]
  have run: "status job = Running" if "tasks s jid = Some Generating"
    using jok that by (simp add: jobOk_def)
  have dist: "distinct (clients job)" using jok by (simp add: jobOk_def)
  show ?thesis
  proof (cases a)
    case (StartJob jid0 uid pid)
    then show ?thesis
      using j by (cases "jobObjects s jid0") (auto simp: step_def split_def Let_def)
  next
    case (NotifyProgress jid0 msg)
    show ?thesis
    proof (cases "jid0 = jid \<and> tasks s jid = Some Generating")
      case True
      then show ?thesis
        using j run by (simp add: NotifyProgress step_def split_def Let_def
              notifyJobProgress_job [OF dist])
    next
      case False
      then show ?thesis
        using j by (auto simp: NotifyProgress step_def split_def Let_def
              split: option.splits taskPhase.splits)
    qed
  next
    case (GenerationReturns jid0 sc)
    show ?thesis
    proof (cases "jid0 = jid \<and> tasks s jid = Some Generating")
      case True
      then show ?thesis
        using j run by (simp add: GenerationReturns step_def split_def Let_def
              finishJobSuccess_job)
    next
      case False
      then show ?thesis
        using j by (auto simp: GenerationReturns step_def split_def Let_def
              split: option.splits taskPhase.splits)
    qed
  next
    case (GenerationThrows jid0 err)
    show ?thesis
    proof (cases "jid0 = jid \<and> tasks s jid = Some Generating")
      case True
      then show ?thesis
        using j run by (simp add: GenerationThrows step_def split_def Let_def
              finishJobFailure_job)
    next
      case False
      then show ?thesis
        using j by (auto simp: GenerationThrows step_def split_def Let_def
              split: option.splits taskPhase.splits)
    qed
  next
    case (PersistenceSettles jid0)
    then show ?thesis
      using j by (auto simp: step_def scheduleJobCleanup_def
            split: option.splits taskPhase.splits)
  next
    case (CleanupTimerFires jid0)
    then show ?thesis
      using j by (auto simp: step_def split: option.splits)
  next
    case (Subscribe client requestUser jid0)
    show ?thesis
    proof (cases "streams s client")
      case (Some raw)
      then show ?thesis using j by (simp add: Subscribe step_def)
    next
      case None
      from subscribe_cases [OF None, of requestUser jid0]
      show ?thesis
        unfolding Subscribe using j by (elim disjE exE conjE) (auto split: if_splits)
    qed
  next
    case (PeerCloses client)
    then show ?thesis
      using j by (auto simp: step_def Let_def split: option.splits)
  next
    case (StreamBreaks client)
    then show ?thesis
      using j by (auto simp: step_def split: option.splits)
  next
    case (Tick d)
    then show ?thesis using j by (simp add: step_def)
  qed
qed

lemma step_creates_running:
  assumes "jobObjects s jid = None" and "jobObjects (step a s) jid = Some job'"
  shows "status job' = Running \<and> jid \<in> storyboardJobs (step a s)"
proof (cases a)
  case (StartJob jid0 uid pid)
  then show ?thesis
    using assms
    by (auto simp: step_def split_def Let_def notifyJobProgress_def broadcastJobEvent_def
          split: if_splits)
next
  case (Subscribe client requestUser jid0)
  show ?thesis
  proof (cases "streams s client")
    case (Some raw)
    then show ?thesis using assms by (simp add: Subscribe step_def)
  next
    case None
    from subscribe_cases [OF None, of requestUser jid0]
    show ?thesis
      using assms unfolding Subscribe by (elim disjE exE conjE) (auto split: if_splits)
  qed
qed (use assms in \<open>auto simp: step_def Let_def split_def split: option.splits taskPhase.splits if_splits\<close>)

lemma run_job:
  assumes "serverOk s" and "jobObjects s jid = Some job" and "status job \<noteq> Running"
  shows "\<exists>job'. jobObjects (run s later) jid = Some job'
           \<and> userId job' = userId job \<and> projectId job' = projectId job
           \<and> status job' = status job
           \<and> message job' = message job \<and> updatedAt job' = updatedAt job
           \<and> scenes job' = scenes job \<and> error job' = error job"
  using assms
proof (induction later arbitrary: s job)
  case Nil
  then show ?case by simp
next
  case (Cons a later)
  obtain job1 where j1: "jobObjects (step a s) jid = Some job1"
    and same: "userId job1 = userId job" "projectId job1 = projectId job"
      "status job1 = status job" "message job1 = message job" "updatedAt job1 = updatedAt job"
      "scenes job1 = scenes job" "error job1 = error job"
    using step_job [OF Cons.prems(1,2), of a] Cons.prems(3) by auto
  have "status job1 \<noteq> Running" using same Cons.prems(3) by simp
  from Cons.IH [OF step_serverOk [OF Cons.prems(1)] j1 this]
  show ?case using same by simp
qed

lemma step_timeOk:
  assumes ok: "serverOk s" and tm: "timeOk s"
  shows "timeOk (step a s)"
proof -
  have gen: "cleanupTimer job = None \<and> jid \<in> storyboardJobs s \<and> distinct (clients job)"
    if "tasks s jid = Some Generating" "jobObjects s jid = Some job" for jid job
    using serverOk_job [OF ok that(2)] that(1) by (auto simp: jobOk_def)
  have per: "jid \<in> storyboardJobs s"
    if "tasks s jid = Some Persisting" "jobObjects s jid = Some job" for jid job
    using serverOk_job [OF ok that(2)] that(1) by (auto simp: jobOk_def)
  have ident: "jobId job = jid" if "jobObjects s jid = Some job" for jid job
    using serverOk_job [OF ok that] by (auto simp: jobOk_def)
  show ?thesis
  proof (cases a)
    case (StartJob jid0 uid pid)
    then show ?thesis
      using tm
      by (cases "jobObjects s jid0")
         (auto simp: timeOk_def step_def notifyJobProgress_def broadcastJobEvent_def Let_def)
  next
    case (NotifyProgress jid0 msg)
    show ?thesis
    proof (cases "tasks s jid0 = Some Generating \<and> jobObjects s jid0 \<noteq> None")
      case False
      then show ?thesis using tm task_step_idle(1) by (simp add: NotifyProgress)
    next
      case True
      then obtain job0 where t: "tasks s jid0 = Some Generating" "jobObjects s jid0 = Some job0"
        by auto
      then show ?thesis
        using tm gen [OF t]
        by (auto simp: NotifyProgress timeOk_def step_def split_def Let_def
              notifyJobProgress_job)
    qed
  next
    case (GenerationReturns jid0 sc)
    show ?thesis
    proof (cases "tasks s jid0 = Some Generating \<and> jobObjects s jid0 \<noteq> None")
      case False
      then show ?thesis using tm task_step_idle(2) by (simp add: GenerationReturns)
    next
      case True
      then obtain job0 where t: "tasks s jid0 = Some Generating" "jobObjects s jid0 = Some job0"
        by auto
      then show ?thesis
        using tm gen [OF t]
        by (auto simp: GenerationReturns timeOk_def step_def split_def Let_def
              finishJobSuccess_job)
    qed
  next
    case (GenerationThrows jid0 err)
    show ?thesis
    proof (cases "tasks s jid0 = Some Generating \<and> jobObjects s jid0 \<noteq> None")
      case False
      then show ?thesis using tm task_step_idle(3) by (simp add: GenerationThrows)
    next
      case True
      then obtain job0 where t: "tasks s jid0 = Some Generating" "jobObjects s jid0 = Some job0"
        by auto
      then show ?thesis
        using tm gen [OF t]
        by (auto simp: GenerationThrows timeOk_def step_def split_def Let_def
              finishJobFailure_job)
    qed
  next
    case (PersistenceSettles jid0)
    show ?thesis
    proof (cases "tasks s jid0 = Some Persisting \<and> jobObjects s jid0 \<noteq> None")
      case False
      then have "step (PersistenceSettles jid0) s = s"
        by (auto simp: step_def split: option.splits taskPhase.splits)
      then show ?thesis using tm by (simp add: PersistenceSettles)
    next
      case True
      then obtain job0 where t: "tasks s jid0 = Some Persisting" "jobObjects s jid0 = Some job0"
        by auto
      then show ?thesis
        using tm per [OF t]
        by (auto simp: PersistenceSettles timeOk_def step_def scheduleJobCleanup_def)
    qed
  next
    case (CleanupTimerFires jid0)
    show ?thesis
    proof (cases "\<exists>job due. jobObjects s jid0 = Some job \<and> cleanupTimer job = Some due
                    \<and> due \<le> clock s")
      case False
      then have "step (CleanupTimerFires jid0) s = s"
        by (auto simp: step_def split: option.splits)
      then show ?thesis using tm by (simp add: CleanupTimerFires)
    next
      case True
      then obtain job0 due where t: "jobObjects s jid0 = Some job0" "cleanupTimer job0 = Some due"
        "due \<le> clock s" by auto
      have "updatedAt job0 + JOB_TTL_MS \<le> clock s"
        using tm t by (fastforce simp: timeOk_def)
      then show ?thesis
        using tm t ident [OF t(1)]
        by (auto simp: CleanupTimerFires timeOk_def step_def)
    qed
  next
    case (Subscribe client requestUser jid0)
    show ?thesis
    proof (cases "streams s client")
      case (Some raw)
      then show ?thesis using tm by (simp add: Subscribe step_def)
    next
      case None
      from subscribe_cases [OF None, of requestUser jid0]
      show ?thesis
        unfolding Subscribe using tm
        by (elim disjE exE conjE) (auto simp: timeOk_def split: if_splits)
    qed
  next
    case (PeerCloses client)
    then show ?thesis
      using tm by (auto simp: timeOk_def step_def Let_def split: option.splits)
  next
    case (StreamBreaks client)
    then show ?thesis
      using tm by (auto simp: timeOk_def step_def split: option.splits)
  next
    case (Tick d)
    then show ?thesis
      using tm by (fastforce simp: timeOk_def step_def)
  qed
qed

lemma reachable_timeOk: "timeOk (run initialServer acts)"
proof -
  have "serverOk s \<Longrightarrow> timeOk s \<Longrightarrow> timeOk (run s acts)" for s
    by (induction acts arbitrary: s) (simp_all add: step_serverOk step_timeOk)
  moreover have "timeOk initialServer" by (simp add: timeOk_def initialServer_def)
  ultimately show ?thesis using serverOk_initial by blast
qed

lemma run_append: "run s (xs @ ys) = run (run s xs) ys"
  by (induction xs arbitrary: s) simp_all

subsection \<open>Claim C4\<close>

text \<open>
  Claim C4. In every state the server can reach and for every step it can take next: a job
  that appears with the step is in status \<open>Running\<close>; a job that exists keeps its status or
  goes from \<open>Running\<close> to \<open>Completed\<close> or to \<open>Failed\<close>; and a job that has left \<open>Running\<close>
  keeps its status through every later sequence of steps (progress callbacks, settling of the
  generation or of the persistence, subscriptions, disconnects, cleanup, time).
\<close>

theorem job_status_monotonic:
  "(jobObjects (run initialServer acts) jid = None \<longrightarrow>
      (\<forall>job'. jobObjects (step a (run initialServer acts)) jid = Some job'
         \<longrightarrow> status job' = Running))
   \<and> (\<forall>job. jobObjects (run initialServer acts) jid = Some job \<longrightarrow>
         (\<exists>job'. jobObjects (step a (run initialServer acts)) jid = Some job'
            \<and> (status job' = status job
                \<or> (status job = Running
                    \<and> (status job' = Completed \<or> status job' = Failed)))))
   \<and> (\<forall>job. jobObjects (run initialServer acts) jid = Some job \<and> status job \<noteq> Running \<longrightarrow>
         (\<exists>job'. jobObjects (run initialServer (acts @ later)) jid = Some job'
            \<and> status job' = status job))"
proof (intro conjI allI impI)
  fix job' assume "jobObjects (run initialServer acts) jid = None"
    and "jobObjects (step a (run initialServer acts)) jid = Some job'"
  then show "status job' = Running" using step_creates_running by blast
next
  fix job assume j: "jobObjects (run initialServer acts) jid = Some job"
  obtain job' where j': "jobObjects (step a (run initialServer acts)) jid = Some job'"
    and st: "status job' = status job \<or> status job = Running"
    using step_job [OF reachable_serverOk j, of a] by blast
  have "status job' = status job
        \<or> (status job = Running \<and> (status job' = Completed \<or> status job' = Failed))"
    using st by (cases "status job'") auto
  then show "\<exists>job'. jobObjects (step a (run initialServer acts)) jid = Some job'
            \<and> (status job' = status job
                \<or> (status job = Running
                    \<and> (status job' = Completed \<or> status job' = Failed)))"
    using j' by blast
next
  fix job assume "jobObjects (run initialServer acts) jid = Some job \<and> status job \<noteq> Running"
  then show "\<exists>job'. jobObjects (run initialServer (acts @ later)) jid = Some job'
            \<and> status job' = status job"
    using run_job [OF reachable_serverOk, of acts jid job later] by (auto simp: run_append)
qed

lemmas job_eval = step_def initialServer_def notifyJobProgress_def broadcastJobEvent_def
  finishJobSuccess_def finishJobFailure_def Let_def split_def

text \<open>The theorem at a job that completes and then meets a late progress callback, a late
  failure, and the settling of its persistence.\<close>

theorem job_status_monotonic_witness:
  "jobObjects (run initialServer []) ''j1'' = None
   \<and> (\<exists>job. jobObjects (run initialServer [StartJob ''j1'' ''u1'' ''p1'']) ''j1'' = Some job
          \<and> status job = Running)
   \<and> (\<exists>job. jobObjects (run initialServer completedTrace) ''j1'' = Some job
          \<and> status job = Completed)
   \<and> (\<exists>job. jobObjects (run initialServer
                 (completedTrace @ [NotifyProgress ''j1'' ''late'', GenerationThrows ''j1'' None,
                    Tick 5, PersistenceSettles ''j1'']))
               ''j1'' = Some job
          \<and> status job = Completed)"
proof -
  have a: "jobObjects (run initialServer []) ''j1'' = None"
    by (simp add: initialServer_def)
  obtain job0 where j0: "jobObjects (step (StartJob ''j1'' ''u1'' ''p1'') (run initialServer []))
                           ''j1'' = Some job0"
    by (simp add: job_eval)
  have r: "status job0 = Running"
    using job_status_monotonic [of "[]" "''j1''" "StartJob ''j1'' ''u1'' ''p1''" "[]"] a j0
    by blast
  obtain job1 where j1: "jobObjects (run initialServer completedTrace) ''j1'' = Some job1"
    and c: "status job1 = Completed"
    by (simp add: completedTrace_def job_eval)
  obtain job2 where "jobObjects (run initialServer
                 (completedTrace @ [NotifyProgress ''j1'' ''late'', GenerationThrows ''j1'' None,
                    Tick 5, PersistenceSettles ''j1'']))
               ''j1'' = Some job2" "status job2 = status job1"
    using job_status_monotonic [of completedTrace "''j1''" "Tick 0"
        "[NotifyProgress ''j1'' ''late'', GenerationThrows ''j1'' None, Tick 5,
          PersistenceSettles ''j1'']"] j1 c
    by auto
  then show ?thesis using a j0 r j1 c by auto
qed

subsection \<open>Claim C5\<close>


lemma watchedTrace_stream:
  "streams (run initialServer watchedTrace) 1 =
     Some \<lparr> written =
              [ProgressEvent (Some ''p1'') Running
                 (''Preparando gera'' @ [CHR 0xE7, CHR 0xE3] @ ''o do storyboard...'') 0,
               ProgressEvent None Running ''Gerando imagem'' 0,
               CompletedEvent ''p1'' Completed ''Storyboard completo!'' 7 1],
            ended = True, writeFails = False, peerClosed = False,
            hasCloseHandler = True, streamJob = ''j1'' \<rparr>"
  by (simp add: watchedTrace_def owner_def job_eval subscribe_def eventsRefusal_def
        lookupJob_def canAccessJob_def writeSseEvent_def)


subsection \<open>Claim C6\<close>

text \<open>
  Claim C6. In every reachable state, a poll by the owner or an administrator of a job that
  is in the registry returns the running snapshot (202) while the job is \<open>Running\<close>, the
  scene list the generation returned (200) once it is \<open>Completed\<close>, and the non-empty error
  (400) once it is \<open>Failed\<close>. A poll after any later steps returns the same terminal reply
  or, when the job has been discarded, \<open>JobNotFound\<close> (404). A poll of an id that is not in
  the registry returns \<open>JobNotFound\<close>, the cleanup timer makes it so, and a discarded job was
  terminal and last updated at least \<open>JOB_TTL_MS\<close> before.
\<close>

theorem poll_result:
  "(\<forall>job. lookupJob (run initialServer acts) jid = Some job \<and> canAccessJob u job \<longrightarrow>
      (status job = Running \<longrightarrow>
         pollResult (run initialServer acts) (Some u) jid
           = Accepted202 (projectId job) Running (message job) (updatedAt job))
      \<and> (status job = Completed \<longrightarrow>
           (\<exists>sc. scenes job = Some sc
              \<and> pollResult (run initialServer acts) (Some u) jid
                  = Ok200 (projectId job) Completed (message job) sc (updatedAt job)))
      \<and> (status job = Failed \<longrightarrow>
           (\<exists>e. error job = Some e \<and> e \<noteq> []
              \<and> pollResult (run initialServer acts) (Some u) jid
                  = BadRequest400 (projectId job) Failed (message job) e (updatedAt job))))
   \<and> (\<forall>job. lookupJob (run initialServer acts) jid = Some job \<and> status job \<noteq> Running \<longrightarrow>
         pollResult (run initialServer (acts @ later)) (Some u) jid
           = pollResult (run initialServer acts) (Some u) jid
         \<or> pollResult (run initialServer (acts @ later)) (Some u) jid = JobNotFound404)
   \<and> (lookupJob (run initialServer acts) jid = None \<longrightarrow>
         pollResult (run initialServer acts) (Some u) jid = JobNotFound404)
   \<and> (\<forall>job due. jobObjects (run initialServer acts) jid = Some job
         \<and> cleanupTimer job = Some due \<and> due \<le> clock (run initialServer acts) \<longrightarrow>
         pollResult (step (CleanupTimerFires jid) (run initialServer acts)) (Some u) jid
           = JobNotFound404)
   \<and> (\<forall>job. jobObjects (run initialServer acts) jid = Some job
         \<and> lookupJob (run initialServer acts) jid = None \<longrightarrow>
         status job \<noteq> Running
         \<and> updatedAt job + JOB_TTL_MS \<le> clock (run initialServer acts))"
proof (intro conjI allI impI)
  let ?s = "run initialServer acts"
  fix job assume a: "lookupJob ?s jid = Some job \<and> canAccessJob u job"
  then have j: "jobObjects ?s jid = Some job"
    by (simp add: lookupJob_def split: if_splits)
  note jok = serverOk_job [OF reachable_serverOk j]
  show "pollResult ?s (Some u) jid
           = Accepted202 (projectId job) Running (message job) (updatedAt job)"
    if "status job = Running"
    using a that by (simp add: pollResult_def)
  show "\<exists>sc. scenes job = Some sc
              \<and> pollResult ?s (Some u) jid
                  = Ok200 (projectId job) Completed (message job) sc (updatedAt job)"
    if "status job = Completed"
    using a jok that by (auto simp: pollResult_def jobOk_def)
  show "\<exists>e. error job = Some e \<and> e \<noteq> []
              \<and> pollResult ?s (Some u) jid
                  = BadRequest400 (projectId job) Failed (message job) e (updatedAt job)"
    if "status job = Failed"
    using a jok that by (auto simp: pollResult_def jobOk_def)
next
  let ?s = "run initialServer acts"
  let ?t = "run initialServer (acts @ later)"
  fix job assume a: "lookupJob ?s jid = Some job \<and> status job \<noteq> Running"
  then have j: "jobObjects ?s jid = Some job" and l: "lookupJob ?s jid = Some job"
    by (simp_all add: lookupJob_def split: if_splits)
  obtain job' where j': "jobObjects ?t jid = Some job'"
    and same: "userId job' = userId job" "projectId job' = projectId job"
      "status job' = status job" "message job' = message job" "updatedAt job' = updatedAt job"
      "scenes job' = scenes job" "error job' = error job"
    using run_job [OF reachable_serverOk j, of later] a by (auto simp: run_append)
  show "pollResult ?t (Some u) jid = pollResult ?s (Some u) jid
         \<or> pollResult ?t (Some u) jid = JobNotFound404"
  proof (cases "jid \<in> storyboardJobs ?t")
    case True
    then have "lookupJob ?t jid = Some job'" using j' by (simp add: lookupJob_def)
    then have "pollResult ?t (Some u) jid = pollResult ?s (Some u) jid"
      using l same by (simp add: pollResult_def canAccessJob_def)
    then show ?thesis by simp
  next
    case False
    then have "lookupJob ?t jid = None" by (simp add: lookupJob_def)
    then show ?thesis by (simp add: pollResult_def)
  qed
next
  assume "lookupJob (run initialServer acts) jid = None"
  then show "pollResult (run initialServer acts) (Some u) jid = JobNotFound404"
    by (simp add: pollResult_def)
next
  let ?s = "run initialServer acts"
  fix job due
  assume a: "jobObjects ?s jid = Some job \<and> cleanupTimer job = Some due \<and> due \<le> clock ?s"
  then have "jobId job = jid"
    using serverOk_job [OF reachable_serverOk, of acts jid job] by (simp add: jobOk_def)
  then have "lookupJob (step (CleanupTimerFires jid) ?s) jid = None"
    using a by (simp add: step_def lookupJob_def)
  then show "pollResult (step (CleanupTimerFires jid) ?s) (Some u) jid = JobNotFound404"
    by (simp add: pollResult_def)
next
  let ?s = "run initialServer acts"
  fix job assume a: "jobObjects ?s jid = Some job \<and> lookupJob ?s jid = None"
  then have j: "jobObjects ?s jid = Some job" and n: "jid \<notin> storyboardJobs ?s"
    by (auto simp: lookupJob_def split: if_splits)
  show "status job \<noteq> Running"
    using serverOk_job [OF reachable_serverOk j] n by (auto simp: jobOk_def)
  show "updatedAt job + JOB_TTL_MS \<le> clock ?s"
    using reachable_timeOk [of acts] j n by (auto simp: timeOk_def)
qed

text \<open>The theorem at a running job, a failed job polled twice, a completed job, the failed
  job after its cleanup, and an unknown id.\<close>

theorem poll_result_witness:
  "pollResult (run initialServer [StartJob ''j2'' ''u1'' ''p2'']) (Some owner) ''j2''
     = Accepted202 ''p2'' Running
         (''Preparando gera'' @ [CHR 0xE7, CHR 0xE3] @ ''o do storyboard...'') 0
   \<and> pollResult (run initialServer failedTrace) (Some owner) ''j2''
       = BadRequest400 ''p2'' Failed ''Falha simulada'' ''Falha simulada'' 3
   \<and> pollResult (run initialServer watchedTrace) (Some owner) ''j1''
       = Ok200 ''p1'' Completed ''Storyboard completo!'' [sceneOfDuration 1 2] 7
   \<and> pollResult (run initialServer (failedTrace @ [Subscribe 5 (Some owner) ''j2'', Tick 9]))
         (Some owner) ''j2''
       = BadRequest400 ''p2'' Failed ''Falha simulada'' ''Falha simulada'' 3
   \<and> pollResult (step (CleanupTimerFires ''j2'')
                   (run initialServer (failedTrace @ [Tick 1800000]))) (Some owner) ''j2''
       = JobNotFound404
   \<and> pollResult (run initialServer failedTrace) (Some owner) ''j9'' = JobNotFound404"
proof -
  have ev: "pollResult (run initialServer [StartJob ''j2'' ''u1'' ''p2'']) (Some owner) ''j2''
     = Accepted202 ''p2'' Running
         (''Preparando gera'' @ [CHR 0xE7, CHR 0xE3] @ ''o do storyboard...'') 0"
    "pollResult (run initialServer failedTrace) (Some owner) ''j2''
       = BadRequest400 ''p2'' Failed ''Falha simulada'' ''Falha simulada'' 3"
    "pollResult (run initialServer watchedTrace) (Some owner) ''j1''
       = Ok200 ''p1'' Completed ''Storyboard completo!'' [sceneOfDuration 1 2] 7"
    "pollResult (run initialServer (failedTrace @ [Subscribe 5 (Some owner) ''j2'', Tick 9]))
         (Some owner) ''j2''
       = BadRequest400 ''p2'' Failed ''Falha simulada'' ''Falha simulada'' 3"
    "pollResult (run initialServer failedTrace) (Some owner) ''j9'' = JobNotFound404"
    by (simp_all add: failedTrace_def watchedTrace_def owner_def job_eval subscribe_def
          eventsRefusal_def lookupJob_def canAccessJob_def writeSseEvent_def pollResult_def
          failureMessage_def scheduleJobCleanup_def)
  obtain job where j: "jobObjects (run initialServer (failedTrace @ [Tick 1800000])) ''j2'' = Some job"
    and t: "cleanupTimer job = Some (3 + JOB_TTL_MS)"
      "clock (run initialServer (failedTrace @ [Tick 1800000])) = 1800003"
    by (simp add: failedTrace_def job_eval failureMessage_def scheduleJobCleanup_def)
  have "jobObjects (run initialServer (failedTrace @ [Tick 1800000])) ''j2'' = Some job
         \<and> cleanupTimer job = Some (3 + JOB_TTL_MS)
         \<and> 3 + JOB_TTL_MS \<le> clock (run initialServer (failedTrace @ [Tick 1800000]))"
    using j t by (simp add: JOB_TTL_MS_def)
  from poll_result [of "failedTrace @ [Tick 1800000]" "''j2''" owner "[]",
      THEN conjunct2, THEN conjunct2, THEN conjunct2, THEN conjunct1, rule_format, OF this]
  show ?thesis using ev by simp
qed

end
